theory Spec2Isabelle
  imports Main
begin

section \<open>Boards in the store\<close>

text \<open>
  A Sudoku grid is a Python list of row lists of ints. The engine assigns to cells of a
  deep copy of the board it is given, so list objects live in a store and are named by
  addresses: an address is the index of the object among the objects of its kind, and a
  new object is appended. Digits are Python ints; row and column indices come from
  \<^verbatim>\<open>range(9)\<close> and are naturals.
\<close>

type_synonym addr = nat

text \<open>\<^verbatim>\<open>class SudokuBoard\<close>: \<^verbatim>\<open>self.grid\<close> refers to the outer list, \<^verbatim>\<open>self.size = 9\<close>.\<close>

record SudokuBoard =
  grid :: addr
  board_size :: int

record heap =
  boards :: "SudokuBoard list"
  outer_lists :: "addr list list"
  row_lists :: "int list list"

text \<open>Python's only exception on these paths: a subscript out of range.\<close>

datatype error = IndexError

definition row_addrs :: "heap \<Rightarrow> addr \<Rightarrow> addr list" where
  "row_addrs h b = outer_lists h ! grid (boards h ! b)"

text \<open>The value of \<^verbatim>\<open>board.grid\<close>: the rows, each read through its reference.\<close>

definition read_grid :: "heap \<Rightarrow> addr \<Rightarrow> int list list" where
  "read_grid h b = map (\<lambda>a. row_lists h ! a) (row_addrs h b)"

text \<open>
  Every reference held by the board at \<open>b\<close> points to an object of the store (Python has
  no dangling reference).
\<close>

definition valid_board :: "heap \<Rightarrow> addr \<Rightarrow> bool" where
  "valid_board h b \<longleftrightarrow>
     b < length (boards h) \<and> grid (boards h ! b) < length (outer_lists h) \<and>
     list_all (\<lambda>a. a < length (row_lists h)) (row_addrs h b)"

text \<open>
  \<^verbatim>\<open>copy.deepcopy\<close> of the row lists of a grid. The memo maps the address of a list that
  has been copied to the address of its copy, so two references to one row list become
  two references to one new row list.
\<close>

fun deepcopy_rows ::
  "int list list \<Rightarrow> (addr \<rightharpoonup> addr) \<Rightarrow> addr list \<Rightarrow>
     int list list \<times> (addr \<rightharpoonup> addr) \<times> addr list" where
  "deepcopy_rows rs memo [] = (rs, memo, [])"
| "deepcopy_rows rs memo (a # as) =
     (case memo a of
        Some y \<Rightarrow>
          (case deepcopy_rows rs memo as of (rs', memo', ys) \<Rightarrow> (rs', memo', y # ys))
      | None \<Rightarrow>
          (case deepcopy_rows (rs @ [rs ! a]) (memo(a \<mapsto> length rs)) as of
             (rs', memo', ys) \<Rightarrow> (rs', memo', length rs # ys)))"

text \<open>\<^verbatim>\<open>copy.deepcopy(grid)\<close>: a new outer list of copied rows.\<close>

definition deepcopy_grid :: "heap \<Rightarrow> addr \<Rightarrow> addr \<times> heap" where
  "deepcopy_grid h g =
     (case deepcopy_rows (row_lists h) Map.empty (outer_lists h ! g) of
        (rs', memo', ys) \<Rightarrow>
          (length (outer_lists h),
           h\<lparr>outer_lists := outer_lists h @ [ys], row_lists := rs'\<rparr>))"

text \<open>\<^verbatim>\<open>copy.deepcopy(board)\<close>: a new board whose grid is a deep copy; \<^verbatim>\<open>size\<close> is an int.\<close>

definition deepcopy :: "heap \<Rightarrow> addr \<Rightarrow> addr \<times> heap" where
  "deepcopy h b =
     (case deepcopy_grid h (grid (boards h ! b)) of
        (g', h') \<Rightarrow>
          (length (boards h'),
           h'\<lparr>boards := boards h' @ [(boards h ! b)\<lparr>grid := g'\<rparr>]\<rparr>))"

text \<open>\<^verbatim>\<open>SudokuBoard.__init__(self, grid)\<close>: keeps a deep copy of the grid it is given.\<close>

definition SudokuBoard_init :: "heap \<Rightarrow> addr \<Rightarrow> addr \<times> heap" where
  "SudokuBoard_init h g =
     (case deepcopy_grid h g of
        (g', h') \<Rightarrow>
          (length (boards h'),
           h'\<lparr>boards := boards h' @ [\<lparr>grid = g', board_size = 9\<rparr>]\<rparr>))"

text \<open>
  \<^verbatim>\<open>working_board.grid[row][col] = num\<close>. The subscripts are checked as Python checks
  them; the assignment changes the one row list the reference names.
\<close>

definition write_cell :: "heap \<Rightarrow> addr \<Rightarrow> nat \<Rightarrow> nat \<Rightarrow> int \<Rightarrow> error + heap" where
  "write_cell h b row col num =
     (if row < length (row_addrs h b) then
        (let a = row_addrs h b ! row in
         if col < length (row_lists h ! a)
         then Inr (h\<lparr>row_lists := (row_lists h)[a := (row_lists h ! a)[col := num]]\<rparr>)
         else Inl IndexError)
      else Inl IndexError)"

text \<open>
  \<^verbatim>\<open>for row, col, num in findings: working_board.grid[row][col] = num\<close>. An exception
  leaves the assignments made before it in the store.
\<close>

fun assign_all :: "heap \<Rightarrow> addr \<Rightarrow> (nat \<times> nat \<times> int) list \<Rightarrow> error option \<times> heap" where
  "assign_all h b [] = (None, h)"
| "assign_all h b ((row, col, num) # fs) =
     (case write_cell h b row col num of
        Inl e \<Rightarrow> (Some e, h)
      | Inr h' \<Rightarrow> assign_all h' b fs)"

section \<open>Candidates\<close>

text \<open>
  \<^verbatim>\<open>self.candidates\<close> is a dict from \<^verbatim>\<open>(row, col)\<close> to a set of digits. Its items are
  enumerated in insertion order, so it is an association list; the techniques never
  remove a key, they discard digits from the sets in place.
\<close>

type_synonym cell = "nat \<times> nat"
type_synonym candidates = "(cell \<times> int set) list"

text \<open>\<^verbatim>\<open>self.grid[row][col]\<close>, as a read.\<close>

definition cell_at :: "int list list \<Rightarrow> nat \<Rightarrow> nat \<Rightarrow> error + int" where
  "cell_at g row col =
     (if row < length g \<and> col < length (g ! row) then Inr (g ! row ! col) else Inl IndexError)"

text \<open>The values of the cells at the given positions, read in order.\<close>

fun read_cells :: "int list list \<Rightarrow> cell list \<Rightarrow> error + int list" where
  "read_cells g [] = Inr []"
| "read_cells g ((row, col) # ps) =
     (case cell_at g row col of
        Inl e \<Rightarrow> Inl e
      | Inr v \<Rightarrow> (case read_cells g ps of Inl e \<Rightarrow> Inl e | Inr vs \<Rightarrow> Inr (v # vs)))"

text \<open>\<^verbatim>\<open>if v != 0: possible.discard(v)\<close>, for each value read.\<close>

definition discard_seen :: "int list \<Rightarrow> int set \<Rightarrow> int set" where
  "discard_seen vs possible = fold (\<lambda>v p. if v \<noteq> 0 then p - {v} else p) vs possible"

text \<open>
  \<^verbatim>\<open>_get_candidates(row, col)\<close>: the three loops read the row, the column and the box
  in this order and discard what they read.
\<close>

definition get_candidates :: "int list list \<Rightarrow> nat \<Rightarrow> nat \<Rightarrow> error + int set" where
  "get_candidates g row col =
     (case cell_at g row col of
        Inl e \<Rightarrow> Inl e
      | Inr v \<Rightarrow>
          if v \<noteq> 0 then Inr {}
          else
            (let box_row = (row div 3) * 3; box_col = (col div 3) * 3 in
             case read_cells g
                    (map (\<lambda>c. (row, c)) [0..<9] @ map (\<lambda>r. (r, col)) [0..<9] @
                     concat (map (\<lambda>r. map (\<lambda>c. (r, c)) [box_col..<box_col + 3])
                               [box_row..<box_row + 3])) of
               Inl e \<Rightarrow> Inl e
             | Inr vs \<Rightarrow> Inr (discard_seen vs (set [1..9]))))"

text \<open>\<^verbatim>\<open>_init_candidates\<close>: the double loop over \<^verbatim>\<open>range(9)\<close>, row by row.\<close>

fun init_loop :: "int list list \<Rightarrow> cell list \<Rightarrow> candidates \<Rightarrow> error + candidates" where
  "init_loop g [] cands = Inr cands"
| "init_loop g ((row, col) # ps) cands =
     (case cell_at g row col of
        Inl e \<Rightarrow> Inl e
      | Inr v \<Rightarrow>
          if v = 0 then
            (case get_candidates g row col of
               Inl e \<Rightarrow> Inl e
             | Inr s \<Rightarrow> init_loop g ps (cands @ [((row, col), s)]))
          else init_loop g ps cands)"

definition all_cells :: "cell list" where
  "all_cells = concat (map (\<lambda>row. map (\<lambda>col. (row, col)) [0..<9]) [0..<9])"

definition init_candidates :: "int list list \<Rightarrow> error + candidates" where
  "init_candidates g = init_loop g all_cells []"

text \<open>\<^verbatim>\<open>(row, col) in self.candidates and num in self.candidates[(row, col)]\<close>.\<close>

definition is_candidate :: "candidates \<Rightarrow> cell \<Rightarrow> int \<Rightarrow> bool" where
  "is_candidate cands k num = (case map_of cands k of Some s \<Rightarrow> num \<in> s | None \<Rightarrow> False)"

text \<open>\<^verbatim>\<open>(row, col) in self.candidates and len(self.candidates[(row, col)]) == 2\<close>.\<close>

definition is_bi_value :: "candidates \<Rightarrow> cell \<Rightarrow> bool" where
  "is_bi_value cands k = (case map_of cands k of Some s \<Rightarrow> card s = 2 | None \<Rightarrow> False)"

text \<open>\<^verbatim>\<open>self.candidates[k].discard(num)\<close>: the set at key \<open>k\<close> changes in place.\<close>

definition discard :: "candidates \<Rightarrow> cell \<Rightarrow> int \<Rightarrow> candidates" where
  "discard cands k num = map (\<lambda>(k', s). if k' = k then (k', s - {num}) else (k', s)) cands"

text \<open>
  The step every applier repeats:
  \<^verbatim>\<open>if k in self.candidates and num in self.candidates[k]: discard; eliminated += 1\<close>.
\<close>

definition eliminate :: "cell \<times> int \<Rightarrow> candidates \<times> nat \<Rightarrow> candidates \<times> nat" where
  "eliminate t st =
     (case t of (k, num) \<Rightarrow> case st of (cands, eliminated) \<Rightarrow>
        if is_candidate cands k num then (discard cands k num, eliminated + 1)
        else (cands, eliminated))"

section \<open>Single-cell techniques\<close>

text \<open>
  \<^verbatim>\<open>find_naked_singles\<close>: the items of the dict in insertion order; \<^verbatim>\<open>list(cands)[0]\<close>
  of a one-element set is its element.
\<close>

definition find_naked_singles :: "candidates \<Rightarrow> (nat \<times> nat \<times> int) list" where
  "find_naked_singles cands =
     concat (map (\<lambda>((row, col), s). if card s = 1 then [(row, col, the_elem s)] else []) cands)"

text \<open>
  The tail shared by \<^verbatim>\<open>_find_hidden_in_row\<close>, \<^verbatim>\<open>_find_hidden_in_col\<close> and
  \<^verbatim>\<open>_find_hidden_in_box\<close>: a digit with exactly one possible position.
\<close>

definition hidden_result :: "cell list \<Rightarrow> int \<Rightarrow> (nat \<times> nat \<times> int) list" where
  "hidden_result possible_positions num =
     (if length possible_positions = 1
      then [(fst (possible_positions ! 0), snd (possible_positions ! 0), num)] else [])"

definition find_hidden_in_row :: "int list list \<Rightarrow> candidates \<Rightarrow> nat \<Rightarrow> (nat \<times> nat \<times> int) list" where
  "find_hidden_in_row g cands row =
     concat (map (\<lambda>num.
        if num \<in> set (g ! row) then []
        else hidden_result (filter (\<lambda>k. is_candidate cands k num) (map (\<lambda>col. (row, col)) [0..<9])) num)
       [1..9])"

definition find_hidden_in_col :: "int list list \<Rightarrow> candidates \<Rightarrow> nat \<Rightarrow> (nat \<times> nat \<times> int) list" where
  "find_hidden_in_col g cands col =
     concat (map (\<lambda>num.
        if num \<in> set (map (\<lambda>r. g ! r ! col) [0..<9]) then []
        else hidden_result (filter (\<lambda>k. is_candidate cands k num) (map (\<lambda>row. (row, col)) [0..<9])) num)
       [1..9])"

text \<open>The cells of the box whose top left corner is \<open>(box_row, box_col)\<close>, row by row.\<close>

definition box_cells :: "nat \<Rightarrow> nat \<Rightarrow> cell list" where
  "box_cells box_row box_col =
     concat (map (\<lambda>r. map (\<lambda>c. (r, c)) [box_col..<box_col + 3]) [box_row..<box_row + 3])"

definition find_hidden_in_box :: "int list list \<Rightarrow> candidates \<Rightarrow> nat \<Rightarrow> (nat \<times> nat \<times> int) list" where
  "find_hidden_in_box g cands box_idx =
     (let box_row = (box_idx div 3) * 3; box_col = (box_idx mod 3) * 3 in
      concat (map (\<lambda>num.
        if list_ex (\<lambda>(r, c). g ! r ! c = num) (box_cells box_row box_col) then []
        else hidden_result (filter (\<lambda>k. is_candidate cands k num) (box_cells box_row box_col)) num)
       [1..9]))"

text \<open>
  \<^verbatim>\<open>find_hidden_singles\<close> ends with \<^verbatim>\<open>list(set(results))\<close>. The order in which Python
  enumerates a set of tuples is fixed by their hashes and not by the language; it is
  the parameter \<open>set_order\<close>, the list of a set given the list it was built from.
\<close>

type_synonym set_order = "(nat \<times> nat \<times> int) list \<Rightarrow> (nat \<times> nat \<times> int) list"

definition find_hidden_singles :: "set_order \<Rightarrow> int list list \<Rightarrow> candidates \<Rightarrow> (nat \<times> nat \<times> int) list" where
  "find_hidden_singles set_order g cands =
     set_order
       (concat (map (find_hidden_in_row g cands) [0..<9]) @
        concat (map (find_hidden_in_col g cands) [0..<9]) @
        concat (map (find_hidden_in_box g cands) [0..<9]))"

text \<open>What Python guarantees of \<^verbatim>\<open>list(set(results))\<close>: the same elements, each once.\<close>

definition set_order_ok :: "set_order \<Rightarrow> bool" where
  "set_order_ok set_order \<longleftrightarrow> (\<forall>xs. set (set_order xs) = set xs \<and> distinct (set_order xs))"

section \<open>Naked pairs and pointing pairs\<close>

datatype unit_type = Row | Col | Box

text \<open>\<^verbatim>\<open>('naked_pair', unit_type, unit_idx, cells, nums)\<close>, without the constant tag.\<close>

type_synonym naked_pair = "unit_type \<times> nat \<times> cell list \<times> int list"

text \<open>
  The double loop over \<^verbatim>\<open>bi_value_cells\<close> of \<^verbatim>\<open>_find_pairs_in_row\<close>,
  \<^verbatim>\<open>_find_pairs_in_col\<close> and \<^verbatim>\<open>_find_pairs_in_box\<close>.
\<close>

definition pair_results :: "unit_type \<Rightarrow> nat \<Rightarrow> (nat \<times> nat \<times> int set) list \<Rightarrow> naked_pair list" where
  "pair_results unit_type unit_idx bi_value_cells =
     concat (map (\<lambda>i. concat (map (\<lambda>j.
        (case bi_value_cells ! i of (r1, c1, s1) \<Rightarrow>
         case bi_value_cells ! j of (r2, c2, s2) \<Rightarrow>
           if s1 = s2
           then [(unit_type, unit_idx, [(r1, c1), (r2, c2)], sorted_list_of_set s1)]
           else []))
        [i + 1..<length bi_value_cells])) [0..<length bi_value_cells])"

definition bi_value_cells_of :: "candidates \<Rightarrow> cell list \<Rightarrow> (nat \<times> nat \<times> int set) list" where
  "bi_value_cells_of cands ks =
     map (\<lambda>(r, c). (r, c, the (map_of cands (r, c)))) (filter (is_bi_value cands) ks)"

definition find_pairs_in_row :: "candidates \<Rightarrow> nat \<Rightarrow> naked_pair list" where
  "find_pairs_in_row cands row =
     pair_results Row row (bi_value_cells_of cands (map (\<lambda>col. (row, col)) [0..<9]))"

definition find_pairs_in_col :: "candidates \<Rightarrow> nat \<Rightarrow> naked_pair list" where
  "find_pairs_in_col cands col =
     pair_results Col col (bi_value_cells_of cands (map (\<lambda>row. (row, col)) [0..<9]))"

definition find_pairs_in_box :: "candidates \<Rightarrow> nat \<Rightarrow> naked_pair list" where
  "find_pairs_in_box cands box_idx =
     pair_results Box box_idx
       (bi_value_cells_of cands (box_cells ((box_idx div 3) * 3) ((box_idx mod 3) * 3)))"

definition find_naked_pairs :: "candidates \<Rightarrow> naked_pair list" where
  "find_naked_pairs cands =
     concat (map (find_pairs_in_row cands) [0..<9]) @
     concat (map (find_pairs_in_col cands) [0..<9]) @
     concat (map (find_pairs_in_box cands) [0..<9])"

text \<open>\<^verbatim>\<open>('pointing_pair', box_idx, num, line_type, line_idx, positions)\<close>.\<close>

type_synonym pointing_pair = "nat \<times> int \<times> unit_type \<times> nat \<times> cell list"

definition find_pointing_pairs :: "candidates \<Rightarrow> pointing_pair list" where
  "find_pointing_pairs cands =
     concat (map (\<lambda>box_idx.
       (let box_row = (box_idx div 3) * 3; box_col = (box_idx mod 3) * 3 in
        concat (map (\<lambda>num.
          (let positions = filter (\<lambda>k. is_candidate cands k num) (box_cells box_row box_col) in
           if length positions < 2 then []
           else if card (set (map fst positions)) = 1
           then [(box_idx, num, Row, fst (positions ! 0), positions)]
           else if card (set (map snd positions)) = 1
           then [(box_idx, num, Col, snd (positions ! 0), positions)]
           else []))
         [1..9])))
      [0..<9])"

text \<open>
  The appliers visit cells and digits in a fixed order and run \<open>eliminate\<close> on each; the
  test \<^verbatim>\<open>(row, col) in self.candidates\<close> is the one \<open>eliminate\<close> makes.
\<close>

definition naked_pair_targets :: "naked_pair \<Rightarrow> (cell \<times> int) list" where
  "naked_pair_targets p =
     (case p of (unit_type, unit_idx, cells, nums) \<Rightarrow>
        concat (map (\<lambda>k. if k \<notin> set cells then map (\<lambda>num. (k, num)) nums else [])
          (case unit_type of
             Row \<Rightarrow> map (\<lambda>col. (unit_idx, col)) [0..<9]
           | Col \<Rightarrow> map (\<lambda>row. (row, unit_idx)) [0..<9]
           | Box \<Rightarrow> box_cells ((unit_idx div 3) * 3) ((unit_idx mod 3) * 3))))"

definition apply_naked_pairs :: "candidates \<Rightarrow> naked_pair list \<Rightarrow> candidates \<times> nat" where
  "apply_naked_pairs cands pairs =
     fold (\<lambda>p st. fold eliminate (naked_pair_targets p) st) pairs (cands, 0)"

definition pointing_pair_targets :: "pointing_pair \<Rightarrow> (cell \<times> int) list" where
  "pointing_pair_targets p =
     (case p of (box_idx, num, line_type, line_idx, positions) \<Rightarrow>
        (let box_row = (box_idx div 3) * 3; box_col = (box_idx mod 3) * 3 in
         map (\<lambda>k. (k, num))
           (filter (\<lambda>(row, col). \<not> (box_row \<le> row \<and> row < box_row + 3 \<and>
                                     box_col \<le> col \<and> col < box_col + 3))
              (case line_type of
                 Row \<Rightarrow> map (\<lambda>col. (line_idx, col)) [0..<9]
               | Col \<Rightarrow> map (\<lambda>row. (row, line_idx)) [0..<9]
               | Box \<Rightarrow> []))))"

definition apply_pointing_pairs :: "candidates \<Rightarrow> pointing_pair list \<Rightarrow> candidates \<times> nat" where
  "apply_pointing_pairs cands pointings =
     fold (\<lambda>p st. fold eliminate (pointing_pair_targets p) st) pointings (cands, 0)"

section \<open>X-Wing and Swordfish\<close>

datatype pattern_type = Rows | Cols

text \<open>\<^verbatim>\<open>('x_wing', pattern_type, lines, cols_or_rows, num)\<close>, the two lines and the two
  crossing lines as pairs.\<close>

type_synonym x_wing = "pattern_type \<times> (nat \<times> nat) \<times> (nat \<times> nat) \<times> int"

text \<open>
  The dict \<^verbatim>\<open>row_candidates\<close> (or \<^verbatim>\<open>col_candidates\<close>): for each line, in increasing
  order, that holds the digit in exactly two places, the pair of these places.
  \<open>cell_of line i\<close> is the cell of the line at position \<open>i\<close>.
\<close>

definition two_place_lines :: "candidates \<Rightarrow> (nat \<Rightarrow> nat \<Rightarrow> cell) \<Rightarrow> int \<Rightarrow> (nat \<times> nat \<times> nat) list" where
  "two_place_lines cands cell_of num =
     concat (map (\<lambda>line.
        (let positions = filter (\<lambda>i. is_candidate cands (cell_of line i) num) [0..<9] in
         if length positions = 2 then [(line, positions ! 0, positions ! 1)] else []))
       [0..<9])"

text \<open>The double loop over the keys of that dict.\<close>

definition x_wing_results :: "pattern_type \<Rightarrow> int \<Rightarrow> (nat \<times> nat \<times> nat) list \<Rightarrow> x_wing list" where
  "x_wing_results pattern_type num line_candidates =
     concat (map (\<lambda>i. concat (map (\<lambda>j.
        (case line_candidates ! i of (line1, cross1) \<Rightarrow>
         case line_candidates ! j of (line2, cross2) \<Rightarrow>
           if cross1 = cross2 then [(pattern_type, (line1, line2), cross1, num)] else []))
        [i + 1..<length line_candidates])) [0..<length line_candidates])"

definition find_x_wing_in_rows :: "candidates \<Rightarrow> int \<Rightarrow> x_wing list" where
  "find_x_wing_in_rows cands num =
     x_wing_results Rows num (two_place_lines cands (\<lambda>row col. (row, col)) num)"

definition find_x_wing_in_cols :: "candidates \<Rightarrow> int \<Rightarrow> x_wing list" where
  "find_x_wing_in_cols cands num =
     x_wing_results Cols num (two_place_lines cands (\<lambda>col row. (row, col)) num)"

definition find_x_wing :: "candidates \<Rightarrow> x_wing list" where
  "find_x_wing cands =
     concat (map (find_x_wing_in_rows cands) [1..9]) @
     concat (map (find_x_wing_in_cols cands) [1..9])"

definition x_wing_targets :: "x_wing \<Rightarrow> (cell \<times> int) list" where
  "x_wing_targets w =
     (case w of (pattern_type, (line1, line2), (cross1, cross2), num) \<Rightarrow>
        (case pattern_type of
           Rows \<Rightarrow>
             concat (map (\<lambda>row. if row \<noteq> line1 \<and> row \<noteq> line2
                                 then [((row, cross1), num), ((row, cross2), num)] else [])
                       [0..<9])
         | Cols \<Rightarrow>
             concat (map (\<lambda>col. if col \<noteq> line1 \<and> col \<noteq> line2
                                 then [((cross1, col), num), ((cross2, col), num)] else [])
                       [0..<9])))"

definition apply_x_wing :: "candidates \<Rightarrow> x_wing list \<Rightarrow> candidates \<times> nat" where
  "apply_x_wing cands x_wings =
     fold (\<lambda>w st. fold eliminate (x_wing_targets w) st) x_wings (cands, 0)"

text \<open>\<^verbatim>\<open>('swordfish', pattern_type, lines, cols_or_rows, num)\<close>, the tuples as lists.\<close>

type_synonym swordfish = "pattern_type \<times> nat list \<times> nat list \<times> int"

text \<open>The dict of the lines that hold the digit in two or three places, with the set of places.\<close>

definition few_place_lines :: "candidates \<Rightarrow> (nat \<Rightarrow> nat \<Rightarrow> cell) \<Rightarrow> int \<Rightarrow> (nat \<times> nat set) list" where
  "few_place_lines cands cell_of num =
     concat (map (\<lambda>line.
        (let positions = filter (\<lambda>i. is_candidate cands (cell_of line i) num) [0..<9] in
         if 2 \<le> length positions \<and> length positions \<le> 3 then [(line, set positions)] else []))
       [0..<9])"

definition swordfish_results :: "pattern_type \<Rightarrow> int \<Rightarrow> (nat \<times> nat set) list \<Rightarrow> swordfish list" where
  "swordfish_results pattern_type num line_candidates =
     concat (map (\<lambda>i. concat (map (\<lambda>j. concat (map (\<lambda>k.
        (case line_candidates ! i of (line1, s1) \<Rightarrow>
         case line_candidates ! j of (line2, s2) \<Rightarrow>
         case line_candidates ! k of (line3, s3) \<Rightarrow>
           (let union = s1 \<union> s2 \<union> s3 in
            if card union = 3
            then [(pattern_type, [line1, line2, line3], sorted_list_of_set union, num)]
            else [])))
        [j + 1..<length line_candidates]))
        [i + 1..<length line_candidates])) [0..<length line_candidates])"

definition find_swordfish_in_rows :: "candidates \<Rightarrow> int \<Rightarrow> swordfish list" where
  "find_swordfish_in_rows cands num =
     swordfish_results Rows num (few_place_lines cands (\<lambda>row col. (row, col)) num)"

definition find_swordfish_in_cols :: "candidates \<Rightarrow> int \<Rightarrow> swordfish list" where
  "find_swordfish_in_cols cands num =
     swordfish_results Cols num (few_place_lines cands (\<lambda>col row. (row, col)) num)"

definition find_swordfish :: "candidates \<Rightarrow> swordfish list" where
  "find_swordfish cands =
     concat (map (find_swordfish_in_rows cands) [1..9]) @
     concat (map (find_swordfish_in_cols cands) [1..9])"

definition swordfish_targets :: "swordfish \<Rightarrow> (cell \<times> int) list" where
  "swordfish_targets p =
     (case p of (pattern_type, lines, cross_lines, num) \<Rightarrow>
        (case pattern_type of
           Rows \<Rightarrow>
             concat (map (\<lambda>col. concat (map (\<lambda>row.
                if row \<notin> set lines then [((row, col), num)] else []) [0..<9])) cross_lines)
         | Cols \<Rightarrow>
             concat (map (\<lambda>row. concat (map (\<lambda>col.
                if col \<notin> set lines then [((row, col), num)] else []) [0..<9])) cross_lines)))"

definition apply_swordfish :: "candidates \<Rightarrow> swordfish list \<Rightarrow> candidates \<times> nat" where
  "apply_swordfish cands swordfish_patterns =
     fold (\<lambda>p st. fold eliminate (swordfish_targets p) st) swordfish_patterns (cands, 0)"

section \<open>XY-Wing\<close>

definition can_see :: "nat \<Rightarrow> nat \<Rightarrow> nat \<Rightarrow> nat \<Rightarrow> bool" where
  "can_see r1 c1 r2 c2 =
     (if r1 = r2 then True
      else if c1 = c2 then True
      else if r1 div 3 = r2 div 3 \<and> c1 div 3 = c2 div 3 then True
      else False)"

text \<open>\<^verbatim>\<open>('xy_wing', pivot, wing1, wing2, digit_to_eliminate)\<close>.\<close>

type_synonym xy_wing = "cell \<times> cell \<times> cell \<times> int"

text \<open>The bi-value cells, row by row, each with its two candidates in increasing order.\<close>

definition xy_bi_value_cells :: "candidates \<Rightarrow> (nat \<times> nat \<times> int list) list" where
  "xy_bi_value_cells cands =
     map (\<lambda>(r, c). (r, c, sorted_list_of_set (the (map_of cands (r, c)))))
       (filter (is_bi_value cands) all_cells)"

definition find_xy_wing :: "candidates \<Rightarrow> xy_wing list" where
  "find_xy_wing cands =
     (let bi_value_cells = xy_bi_value_cells cands in
      concat (map (\<lambda>(pivot_row, pivot_col, pivot_cands).
        (let X = pivot_cands ! 0; Y = pivot_cands ! 1 in
         concat (map (\<lambda>(wing1_row, wing1_col, wing1_cands).
           if (wing1_row, wing1_col) = (pivot_row, pivot_col) then []
           else if \<not> can_see pivot_row pivot_col wing1_row wing1_col then []
           else if X \<notin> set wing1_cands then []
           else
             (let Z = hd (filter (\<lambda>c. c \<noteq> X) wing1_cands) in
              concat (map (\<lambda>(wing2_row, wing2_col, wing2_cands).
                if (wing2_row, wing2_col) = (pivot_row, pivot_col) then []
                else if (wing2_row, wing2_col) = (wing1_row, wing1_col) then []
                else if \<not> can_see pivot_row pivot_col wing2_row wing2_col then []
                else if set wing2_cands = {Y, Z}
                then [((pivot_row, pivot_col), (wing1_row, wing1_col), (wing2_row, wing2_col), Z)]
                else [])
               bi_value_cells)))
          bi_value_cells)))
       bi_value_cells))"

definition xy_wing_targets :: "xy_wing \<Rightarrow> (cell \<times> int) list" where
  "xy_wing_targets p =
     (case p of (pivot, wing1, wing2, Z) \<Rightarrow>
        concat (map (\<lambda>(row, col).
           if (row, col) \<in> set [pivot, wing1, wing2] then []
           else if can_see row col (fst wing1) (snd wing1) \<and> can_see row col (fst wing2) (snd wing2)
           then [((row, col), Z)] else [])
          all_cells))"

definition apply_xy_wing :: "candidates \<Rightarrow> xy_wing list \<Rightarrow> candidates \<times> nat" where
  "apply_xy_wing cands xy_wing_patterns =
     fold (\<lambda>p st. fold eliminate (xy_wing_targets p) st) xy_wing_patterns (cands, 0)"

section \<open>The difficulty engine\<close>

text \<open>The class attribute \<^verbatim>\<open>TECHNIQUE_SCORES\<close>, a dict with string keys.\<close>

definition TECHNIQUE_SCORES :: "(string \<times> int) list" where
  "TECHNIQUE_SCORES =
     [(''naked_single'', 15), (''hidden_single'', 15), (''naked_pair'', 65),
      (''hidden_pair'', 70), (''pointing_pair'', 80), (''x_wing'', 120),
      (''swordfish'', 160), (''xy_wing'', 180)]"

text \<open>\<^verbatim>\<open>self.TECHNIQUE_SCORES[tag]\<close>; the engine subscripts it with keys it holds.\<close>

definition technique_score :: "string \<Rightarrow> int" where
  "technique_score tag = the (map_of TECHNIQUE_SCORES tag)"

definition max_iterations :: nat where
  "max_iterations = 1000"

text \<open>\<^verbatim>\<open>_is_solved\<close>: no row of the grid holds a 0.\<close>

definition is_solved :: "int list list \<Rightarrow> bool" where
  "is_solved g = list_all (\<lambda>row. 0 \<notin> set row) g"

text \<open>
  What one pass through the body of the while loop comes to: an exception, a technique
  applied (\<^verbatim>\<open>continue\<close>), or none (\<^verbatim>\<open>not applied\<close>, which is the \<^verbatim>\<open>break\<close>).
\<close>

datatype step = Raised error | Applied string | NotApplied

definition assigned :: "string \<Rightarrow> error option \<times> heap \<Rightarrow> step \<times> heap" where
  "assigned tag r = (case r of (Some e, h') \<Rightarrow> (Raised e, h') | (None, h') \<Rightarrow> (Applied tag, h'))"

text \<open>
  The pattern of the steps 3 to 7 of the body:
  \<^verbatim>\<open>if found := tech.find(): eliminated = tech.apply(found); if eliminated > 0: ...\<close>.
  The result says whether the technique counts as applied, and gives the candidates as
  the applier has left them.
\<close>

definition try_technique ::
  "(candidates \<Rightarrow> 'f list) \<Rightarrow> (candidates \<Rightarrow> 'f list \<Rightarrow> candidates \<times> nat) \<Rightarrow>
     candidates \<Rightarrow> bool \<times> candidates" where
  "try_technique find_it apply_it cands =
     (let found = find_it cands in
      if found \<noteq> [] then
        (case apply_it cands found of (cands', eliminated) \<Rightarrow> (eliminated > 0, cands'))
      else (False, cands))"

text \<open>
  Steps 3 to 7, which change candidates and never the grid: the tag of the first
  technique that eliminates something. Each works on the candidates the one before it
  has left.
\<close>

definition eliminations :: "candidates \<Rightarrow> string option" where
  "eliminations cands =
     (case try_technique find_naked_pairs apply_naked_pairs cands of
        (True, c3) \<Rightarrow> Some ''naked_pair''
      | (False, c3) \<Rightarrow>
     (case try_technique find_pointing_pairs apply_pointing_pairs c3 of
        (True, c4) \<Rightarrow> Some ''pointing_pair''
      | (False, c4) \<Rightarrow>
     (case try_technique find_x_wing apply_x_wing c4 of
        (True, c5) \<Rightarrow> Some ''x_wing''
      | (False, c5) \<Rightarrow>
     (case try_technique find_swordfish apply_swordfish c5 of
        (True, c6) \<Rightarrow> Some ''swordfish''
      | (False, c6) \<Rightarrow>
     (case try_technique find_xy_wing apply_xy_wing c6 of
        (True, c7) \<Rightarrow> Some ''xy_wing''
      | (False, c7) \<Rightarrow> None)))))"

text \<open>
  The body of the loop. \<^verbatim>\<open>SudokuTechniques(working_board)\<close> builds the candidates from
  the grid as it is now; the detectors follow in the order of the source.
\<close>

definition iteration_body :: "set_order \<Rightarrow> heap \<Rightarrow> addr \<Rightarrow> step \<times> heap" where
  "iteration_body set_order h wb =
     (let g = read_grid h wb in
      case init_candidates g of
        Inl e \<Rightarrow> (Raised e, h)
      | Inr cands \<Rightarrow>
          if find_naked_singles cands \<noteq> []
          then assigned ''naked_single'' (assign_all h wb (find_naked_singles cands))
          else if find_hidden_singles set_order g cands \<noteq> []
          then assigned ''hidden_single''
                 (assign_all h wb (find_hidden_singles set_order g cands))
          else (case eliminations cands of
                  Some tag \<Rightarrow> (Applied tag, h)
                | None \<Rightarrow> (NotApplied, h)))"

text \<open>
  How the while loop was left: its condition false because the grid is solved, false
  because \<^verbatim>\<open>iteration\<close> has reached \<^verbatim>\<open>max_iterations\<close>, or the \<^verbatim>\<open>break\<close>. The source
  keeps no such value; the loop of the model returns it, with the final \<^verbatim>\<open>iteration\<close>,
  beside \<^verbatim>\<open>techniques_used\<close> and \<^verbatim>\<open>max_score\<close>.
\<close>

datatype exit = Solved | IterationCapped | Stuck

function loop ::
  "set_order \<Rightarrow> heap \<Rightarrow> addr \<Rightarrow> string list \<Rightarrow> int \<Rightarrow> nat \<Rightarrow>
     (error + string list \<times> int \<times> nat \<times> exit) \<times> heap" where
  "loop set_order h wb techniques_used max_score iteration =
     (if \<not> is_solved (read_grid h wb) \<and> iteration < max_iterations then
        (case iteration_body set_order h wb of
           (Raised e, h') \<Rightarrow> (Inl e, h')
         | (Applied tag, h') \<Rightarrow>
             loop set_order h' wb (techniques_used @ [tag])
               (max max_score (technique_score tag)) (iteration + 1)
         | (NotApplied, h') \<Rightarrow>
             (Inr (techniques_used @ [''requires_expert_technique''], max max_score 200,
                   iteration + 1, Stuck), h'))
      else
        (Inr (techniques_used, max_score, iteration,
              if is_solved (read_grid h wb) then Solved else IterationCapped), h))"
  by pat_completeness auto
termination
  by (relation "measure (\<lambda>(set_order, h, wb, techniques_used, max_score, iteration).
        max_iterations - iteration)") auto

text \<open>The classification at the end of \<^verbatim>\<open>rate_puzzle\<close>.\<close>

definition classify :: "int \<Rightarrow> string" where
  "classify max_score =
     (if max_score \<le> 15 then ''Easy'' else if max_score \<le> 90 then ''Medium'' else ''Hard'')"

text \<open>
  \<^verbatim>\<open>rate_puzzle(board)\<close> up to the end of its loop: the working copy, then the loop from
  \<^verbatim>\<open>techniques_used = []\<close>, \<^verbatim>\<open>max_score = 0\<close>, \<^verbatim>\<open>iteration = 0\<close>.
\<close>

definition solve_loop ::
  "set_order \<Rightarrow> heap \<Rightarrow> addr \<Rightarrow> (error + string list \<times> int \<times> nat \<times> exit) \<times> heap" where
  "solve_loop set_order h board =
     (case deepcopy h board of (working_board, h1) \<Rightarrow> loop set_order h1 working_board [] 0 0)"

text \<open>\<^verbatim>\<open>rate_puzzle(board)\<close>: the tuple it returns or the exception it raises, and the store.\<close>

definition rate_puzzle ::
  "set_order \<Rightarrow> heap \<Rightarrow> addr \<Rightarrow> (error + string \<times> int \<times> string list) \<times> heap" where
  "rate_puzzle set_order h board =
     (case solve_loop set_order h board of
        (Inl e, h') \<Rightarrow> (Inl e, h')
      | (Inr (techniques_used, max_score, iteration, ex), h') \<Rightarrow>
          (Inr (classify max_score, max_score, techniques_used), h'))"

section \<open>Invariants of the store\<close>

text \<open>
  The memo of a deep copy that started in a store of \<open>n0\<close> row lists: it maps old rows to
  new ones that hold the same values, and no two old rows to one new row.
\<close>

definition memo_ok :: "nat \<Rightarrow> int list list \<Rightarrow> (addr \<rightharpoonup> addr) \<Rightarrow> bool" where
  "memo_ok n0 rs memo \<longleftrightarrow>
     n0 \<le> length rs \<and>
     (\<forall>a y. memo a = Some y \<longrightarrow> a < n0 \<and> n0 \<le> y \<and> y < length rs \<and> rs ! y = rs ! a) \<and>
     (\<forall>a a' y. memo a = Some y \<and> memo a' = Some y \<longrightarrow> a = a')"

text \<open>Two lists of references with the same pattern of sharing.\<close>

definition same_aliasing :: "addr list \<Rightarrow> addr list \<Rightarrow> bool" where
  "same_aliasing xs ys \<longleftrightarrow>
     length xs = length ys \<and>
     (\<forall>i<length xs. \<forall>j<length xs. (xs ! i = xs ! j) = (ys ! i = ys ! j))"

text \<open>
  What the loop may do to the store: assign to cells of the rows of the working board,
  and nothing else.
\<close>

definition only_rows_of :: "addr \<Rightarrow> heap \<Rightarrow> heap \<Rightarrow> bool" where
  "only_rows_of wb h h' \<longleftrightarrow>
     boards h' = boards h \<and> outer_lists h' = outer_lists h \<and>
     length (row_lists h') = length (row_lists h) \<and>
     (\<forall>a. a \<notin> set (row_addrs h wb) \<longrightarrow> row_lists h' ! a = row_lists h ! a)"

text \<open>
  The shape under which no subscript of the techniques is out of range: nine rows at
  least, and nine cells at least in each of the first nine.
\<close>

definition in_range :: "int list list \<Rightarrow> bool" where
  "in_range g \<longleftrightarrow> 9 \<le> length g \<and> (\<forall>r<9. 9 \<le> length (g ! r))"

text \<open>The cells that \<^verbatim>\<open>_get_candidates(row, col)\<close> reads after the cell itself.\<close>

definition seen_cells :: "nat \<Rightarrow> nat \<Rightarrow> cell list" where
  "seen_cells row col =
     map (\<lambda>c. (row, c)) [0..<9] @ map (\<lambda>r. (r, col)) [0..<9] @
     concat (map (\<lambda>r. map (\<lambda>c. (r, c)) [(col div 3) * 3..<(col div 3) * 3 + 3])
               [(row div 3) * 3..<(row div 3) * 3 + 3])"

text \<open>The dict that \<^verbatim>\<open>_init_candidates\<close> builds when no subscript fails.\<close>

definition candidates_of :: "int list list \<Rightarrow> candidates" where
  "candidates_of g =
     map (\<lambda>(r, c). ((r, c), discard_seen (map (\<lambda>(i, j). g ! i ! j) (seen_cells r c)) (set [1..9])))
       (filter (\<lambda>(r, c). g ! r ! c = 0) all_cells)"

section \<open>The iteration as the specification words it\<close>

text \<open>
  The weight table of the specification: naked_single 15, hidden_single 15, naked_pair
  65, hidden_pair 70, pointing_pair 80, x_wing 120, swordfish 160, xy_wing 180.
\<close>

fun spec_weight :: "string \<Rightarrow> int" where
  "spec_weight tag =
     (if tag = ''naked_single'' then 15 else if tag = ''hidden_single'' then 15
      else if tag = ''naked_pair'' then 65 else if tag = ''hidden_pair'' then 70
      else if tag = ''pointing_pair'' then 80 else if tag = ''x_wing'' then 120
      else if tag = ''swordfish'' then 160 else if tag = ''xy_wing'' then 180 else 0)"

text \<open>
  The seven techniques in the priority order of the specification, each with the size
  of its effect on a candidate map: the number of cells a single assigns, the number of
  candidates an eliminating technique removes.
\<close>

definition technique_effects :: "set_order \<Rightarrow> int list list \<Rightarrow> candidates \<Rightarrow> (string \<times> nat) list" where
  "technique_effects set_order g cands =
     [(''naked_single'', length (find_naked_singles cands)),
      (''hidden_single'', length (find_hidden_singles set_order g cands)),
      (''naked_pair'', snd (apply_naked_pairs cands (find_naked_pairs cands))),
      (''pointing_pair'', snd (apply_pointing_pairs cands (find_pointing_pairs cands))),
      (''x_wing'', snd (apply_x_wing cands (find_x_wing cands))),
      (''swordfish'', snd (apply_swordfish cands (find_swordfish cands))),
      (''xy_wing'', snd (apply_xy_wing cands (find_xy_wing cands)))]"

text \<open>The first technique of the list whose effect is not zero.\<close>

definition first_effective :: "(string \<times> nat) list \<Rightarrow> string option" where
  "first_effective effects = map_option fst (find (\<lambda>(tag, n). 0 < n) effects)"

text \<open>
  The store after a technique has been applied: the singles assign their findings to the
  grid, the eliminations change the candidate map only, which the next iteration
  rebuilds.
\<close>

definition after_technique :: "set_order \<Rightarrow> heap \<Rightarrow> addr \<Rightarrow> candidates \<Rightarrow> string \<Rightarrow> heap" where
  "after_technique set_order h wb cands tag =
     (if tag = ''naked_single'' then snd (assign_all h wb (find_naked_singles cands))
      else if tag = ''hidden_single''
      then snd (assign_all h wb (find_hidden_singles set_order (read_grid h wb) cands))
      else h)"

section \<open>Well-formed input, as the specification words it\<close>

text \<open>
  The input contract of the specification: a 9 by 9 grid of digits 0 to 9 in which no
  non-zero digit occurs twice in a row, a column or a 3 by 3 box. The source has no such
  check; the predicate serves to say which inputs are malformed.
\<close>

definition no_repeat :: "int list \<Rightarrow> bool" where
  "no_repeat unit_values = distinct (filter (\<lambda>d. d \<noteq> 0) unit_values)"

definition spec_valid_grid :: "int list list \<Rightarrow> bool" where
  "spec_valid_grid g \<longleftrightarrow>
     length g = 9 \<and> list_all (\<lambda>row. length row = 9) g \<and>
     list_all (\<lambda>row. list_all (\<lambda>d. 0 \<le> d \<and> d \<le> 9) row) g \<and>
     list_all no_repeat g \<and>
     list_all (\<lambda>c. no_repeat (map (\<lambda>r. g ! r ! c) [0..<9])) [0..<9] \<and>
     list_all (\<lambda>b. no_repeat (map (\<lambda>(r, c). g ! r ! c)
                 (box_cells ((b div 3) * 3) ((b mod 3) * 3)))) [0..<9]"

text \<open>Three malformed grids: a digit repeated everywhere, a digit out of range, no rows.\<close>

definition all_fives :: "int list list" where
  "all_fives = replicate 9 (replicate 9 5)"

definition all_tens :: "int list list" where
  "all_tens = replicate 9 (replicate 9 10)"

text \<open>The grid of fives with its first cell empty.\<close>

definition fives_one_empty :: "int list list" where
  "fives_one_empty = (0 # replicate 8 5) # replicate 8 (replicate 9 5)"

text \<open>A grid of one row with one empty cell.\<close>

definition one_cell :: "int list list" where
  "one_cell = [[0]]"

text \<open>
  ``Shares a unit'' in the words of the specification: the same row, the same column or
  the same 3 by 3 box.
\<close>

definition shares_unit :: "cell \<Rightarrow> cell \<Rightarrow> bool" where
  "shares_unit a b \<longleftrightarrow>
     fst a = fst b \<or> snd a = snd b \<or>
     (fst a div 3 = fst b div 3 \<and> snd a div 3 = snd b div 3)"

text \<open>A pivot at (0, 0), wings at (0, 4) and (3, 0), and the cell (3, 4) that sees both wings.\<close>

definition xy_wing_example :: candidates where
  "xy_wing_example = [((0, 0), {1, 2}), ((0, 4), {1, 3}), ((3, 0), {2, 3}), ((3, 4), {3, 5})]"

section \<open>Boards that the engine cannot tell apart\<close>

text \<open>
  Two boards, each in its store, that no run of the engine can tell apart: the same
  grid, the same sharing among their row lists, and references that point into the
  store.
\<close>

definition rows_valid :: "heap \<Rightarrow> addr \<Rightarrow> bool" where
  "rows_valid h b \<longleftrightarrow> (\<forall>a\<in>set (row_addrs h b). a < length (row_lists h))"

definition similar :: "heap \<Rightarrow> addr \<Rightarrow> heap \<Rightarrow> addr \<Rightarrow> bool" where
  "similar h1 b1 h2 b2 \<longleftrightarrow>
     read_grid h1 b1 = read_grid h2 b2 \<and>
     same_aliasing (row_addrs h1 b1) (row_addrs h2 b2) \<and>
     rows_valid h1 b1 \<and> rows_valid h2 b2"

section \<open>Example boards\<close>

text \<open>A store that holds one board, its nine row lists at the addresses \<open>0\<close> to \<open>8\<close>.\<close>

definition store_of :: "int list list \<Rightarrow> heap" where
  "store_of g =
     \<lparr>boards = [\<lparr>grid = 0, board_size = 9\<rparr>], outer_lists = [[0..<length g]], row_lists = g\<rparr>"

text \<open>The grid of \<^verbatim>\<open>test_easy_puzzle_rating\<close> with its three empty cells filled.\<close>

definition solved_grid :: "int list list" where
  "solved_grid =
     [[5, 3, 4, 6, 7, 8, 9, 1, 2],
      [6, 7, 2, 1, 9, 5, 3, 4, 8],
      [1, 9, 8, 3, 4, 2, 5, 6, 7],
      [8, 5, 9, 7, 6, 1, 4, 2, 3],
      [4, 2, 6, 8, 5, 3, 7, 9, 1],
      [7, 1, 3, 9, 2, 4, 8, 5, 6],
      [9, 6, 1, 5, 3, 7, 2, 8, 4],
      [2, 8, 7, 4, 1, 9, 6, 3, 5],
      [3, 4, 5, 2, 8, 6, 1, 7, 9]]"

text \<open>The grid of \<^verbatim>\<open>test_easy_puzzle_rating\<close>.\<close>

definition easy_puzzle :: "int list list" where
  "easy_puzzle =
     [[5, 3, 4, 6, 7, 8, 9, 1, 2],
      [6, 7, 2, 1, 9, 5, 3, 4, 8],
      [1, 9, 8, 3, 4, 2, 5, 6, 7],
      [8, 5, 9, 7, 6, 1, 4, 2, 3],
      [4, 2, 6, 8, 5, 3, 7, 9, 1],
      [7, 1, 3, 9, 2, 4, 8, 5, 6],
      [9, 6, 1, 5, 3, 7, 2, 8, 0],
      [2, 8, 7, 4, 1, 9, 6, 0, 5],
      [3, 4, 5, 2, 8, 6, 0, 7, 9]]"

text \<open>
  A grid that obeys the input contract: \<open>solved_grid\<close> with eleven cells emptied. The
  digit 2 is a candidate in exactly two columns of the rows 1 and 7, the columns 0 and
  2 in both, and of no other row; it is also a candidate in exactly two rows of the
  columns 4 and 7, the rows 3 and 5 in both.
\<close>

definition x_wing_grid :: "int list list" where
  "x_wing_grid =
     [[5, 3, 4, 6, 7, 8, 9, 1, 2],
      [0, 7, 0, 1, 9, 5, 3, 4, 8],
      [1, 9, 8, 3, 4, 2, 5, 6, 7],
      [8, 0, 9, 7, 0, 1, 4, 0, 3],
      [4, 0, 6, 8, 5, 3, 7, 9, 1],
      [0, 1, 3, 9, 0, 4, 8, 0, 6],
      [9, 6, 1, 5, 3, 7, 2, 8, 4],
      [0, 8, 0, 4, 1, 9, 6, 3, 5],
      [3, 4, 5, 2, 8, 6, 1, 7, 9]]"

text \<open>The candidates of \<open>x_wing_grid\<close>, as \<^verbatim>\<open>_init_candidates\<close> builds them.\<close>

definition x_wing_grid_candidates :: candidates where
  "x_wing_grid_candidates =
     [((1, 0), {2, 6}), ((1, 2), {2}), ((3, 1), {2, 5}), ((3, 4), {2, 6}), ((3, 7), {2, 5}),
      ((4, 1), {2}), ((5, 0), {2, 7}), ((5, 4), {2}), ((5, 7), {2, 5}), ((7, 0), {2, 7}),
      ((7, 2), {2, 7})]"

text \<open>
  A grid that obeys the input contract and has solutions: \<open>solved_grid\<close> with 22 cells
  emptied, all of them cells of the digits 1, 5 and 9. It has no naked and no hidden
  single, and its naked pairs eliminate nothing. In box 0 the candidate 5 lies in column
  0 only, and the cell \<open>(6, 0)\<close> of that column, outside the box, has the candidate 5
  too.
\<close>

definition cycling_puzzle :: "int list list" where
  "cycling_puzzle =
     [[0, 3, 4, 6, 7, 8, 9, 0, 2],
      [6, 7, 2, 0, 0, 5, 3, 4, 8],
      [0, 0, 8, 3, 4, 2, 0, 6, 7],
      [8, 5, 0, 7, 6, 0, 4, 2, 3],
      [4, 2, 6, 8, 0, 3, 7, 9, 0],
      [7, 0, 3, 0, 2, 4, 8, 0, 6],
      [0, 6, 0, 0, 3, 7, 2, 8, 4],
      [2, 8, 7, 4, 0, 0, 6, 3, 0],
      [3, 4, 0, 2, 8, 6, 0, 7, 9]]"

section \<open>Deep copies\<close>

lemma deepcopy_rows_inv:
  "memo_ok n0 rs memo \<Longrightarrow> \<forall>a\<in>set as. a < n0 \<Longrightarrow>
   deepcopy_rows rs memo as = (rs', memo', ys) \<Longrightarrow>
     memo_ok n0 rs' memo' \<and> memo \<subseteq>\<^sub>m memo' \<and> take (length rs) rs' = rs \<and>
     length rs \<le> length rs' \<and>
     ys = map (\<lambda>a. the (memo' a)) as \<and> set as \<subseteq> dom memo'"
proof (induction as arbitrary: rs memo rs' memo' ys)
  case Nil
  then show ?case by simp
next
  case (Cons a as)
  have as_lt: "\<forall>a\<in>set as. a < n0" using Cons.prems(2) by simp
  show ?case
  proof (cases "memo a")
    case (Some y)
    obtain rs1 memo1 ys1 where r: "deepcopy_rows rs memo as = (rs1, memo1, ys1)"
      by (cases "deepcopy_rows rs memo as") auto
    from Cons.prems(3) Some r have eq: "rs' = rs1" "memo' = memo1" "ys = y # ys1" by auto
    have ih: "memo_ok n0 rs1 memo1 \<and> memo \<subseteq>\<^sub>m memo1 \<and> take (length rs) rs1 = rs \<and>
       length rs \<le> length rs1 \<and> ys1 = map (\<lambda>a. the (memo1 a)) as \<and> set as \<subseteq> dom memo1"
      by (rule Cons.IH [OF Cons.prems(1) as_lt r])
    have m1: "memo1 a = Some y" using ih Some by (auto simp: map_le_def dom_def)
    have "set (a # as) \<subseteq> dom memo1" using ih m1 by auto
    moreover have "ys = map (\<lambda>a. the (memo1 a)) (a # as)" using ih m1 eq by simp
    ultimately show ?thesis using ih unfolding eq by blast
  next
    case None
    let ?rs = "rs @ [rs ! a]" and ?memo = "memo(a \<mapsto> length rs)"
    obtain rs1 memo1 ys1 where r: "deepcopy_rows ?rs ?memo as = (rs1, memo1, ys1)"
      by (cases "deepcopy_rows ?rs ?memo as") auto
    from Cons.prems(3) None r have eq: "rs' = rs1" "memo' = memo1" "ys = length rs # ys1" by auto
    have an0: "a < n0" using Cons.prems(2) by simp
    have old: "n0 \<le> length rs"
      "\<And>b y. memo b = Some y \<Longrightarrow> b < n0 \<and> n0 \<le> y \<and> y < length rs \<and> rs ! y = rs ! b"
      "\<And>b b' y. memo b = Some y \<Longrightarrow> memo b' = Some y \<Longrightarrow> b = b'"
      using Cons.prems(1) unfolding memo_ok_def by blast+
    have ok1: "b < n0 \<and> n0 \<le> y \<and> y < length ?rs \<and> ?rs ! y = ?rs ! b"
      if h: "?memo b = Some y" for b y
      proof (cases "b = a")
        case True
        then have "y = length rs" using h by simp
        then show ?thesis using True an0 old(1) by (simp add: nth_append)
      next
        case False
        then have "memo b = Some y" using h by simp
        from old(2) [OF this] show ?thesis using old(1) by (simp add: nth_append)
      qed
    have ok2: "b = b'" if h: "?memo b = Some y \<and> ?memo b' = Some y" for b b' y
      proof (cases "b = a"; cases "b' = a")
        assume "b = a" "b' = a" then show ?thesis by simp
      next
        assume 1: "b = a" "b' \<noteq> a"
        then have "y = length rs" "memo b' = Some y" using h by auto
        with old(2) [of b' y] show ?thesis by simp
      next
        assume 1: "b \<noteq> a" "b' = a"
        then have "y = length rs" "memo b = Some y" using h by auto
        with old(2) [of b y] show ?thesis by simp
      next
        assume 1: "b \<noteq> a" "b' \<noteq> a"
        then have "memo b = Some y" "memo b' = Some y" using h by auto
        then show ?thesis by (rule old(3))
      qed
    have ok0: "n0 \<le> length ?rs" using old(1) by simp
    have ok: "memo_ok n0 ?rs ?memo"
      unfolding memo_ok_def
      apply (rule conjI) apply (rule ok0)
      apply (rule conjI) apply (intro allI impI) apply (erule ok1)
      apply (intro allI impI) apply (erule ok2)
      done
    have ih: "memo_ok n0 rs1 memo1 \<and> ?memo \<subseteq>\<^sub>m memo1 \<and> take (length ?rs) rs1 = ?rs \<and>
       length ?rs \<le> length rs1 \<and> ys1 = map (\<lambda>a. the (memo1 a)) as \<and> set as \<subseteq> dom memo1"
      by (rule Cons.IH [OF ok as_lt r])
    have m1: "memo1 a = Some (length rs)" using ih by (auto simp: map_le_def dom_def)
    have le: "memo \<subseteq>\<^sub>m memo1"
      using ih None by (auto simp: map_le_def dom_def split: if_splits)
    have tk: "take (length rs) rs1 = rs"
    proof -
      have "take (length rs) (take (length ?rs) rs1) = take (length rs) ?rs" using ih by simp
      then show ?thesis by (simp add: min_def)
    qed
    have "set (a # as) \<subseteq> dom memo1" using ih m1 by auto
    moreover have "ys = map (\<lambda>a. the (memo1 a)) (a # as)" using ih m1 eq by simp
    moreover have "length rs \<le> length rs1" using ih by simp
    ultimately show ?thesis using ih le tk unfolding eq by blast
  qed
qed

lemma take_nth_eq: "take n xs = ys \<Longrightarrow> i < n \<Longrightarrow> i < length xs \<Longrightarrow> xs ! i = ys ! i"
  by (metis nth_take)

lemma deepcopy_rows_props:
  assumes lt: "\<forall>a\<in>set as. a < length rs"
    and dc: "deepcopy_rows rs Map.empty as = (rs', memo', ys)"
  shows "take (length rs) rs' = rs" and "length rs \<le> length rs'"
    and "length ys = length as"
    and "\<And>i. i < length as \<Longrightarrow>
           length rs \<le> ys ! i \<and> ys ! i < length rs' \<and> rs' ! (ys ! i) = rs ! (as ! i)"
    and "same_aliasing as ys"
proof -
  have ok0: "memo_ok (length rs) rs Map.empty" by (simp add: memo_ok_def)
  note inv = deepcopy_rows_inv [OF ok0 lt dc]
  have ok: "memo_ok (length rs) rs' memo'" and tk: "take (length rs) rs' = rs"
    and le: "length rs \<le> length rs'" and ys: "ys = map (\<lambda>a. the (memo' a)) as"
    and dom: "set as \<subseteq> dom memo'"
    using inv by blast+
  show "take (length rs) rs' = rs" by (rule tk)
  show "length rs \<le> length rs'" by (rule le)
  show len: "length ys = length as" using ys by simp
  have m: "memo' (as ! i) = Some (ys ! i)" if "i < length as" for i
  proof -
    have "as ! i \<in> set as" using that by simp
    then have "as ! i \<in> dom memo'" using dom by blast
    then show ?thesis using ys that by auto
  qed
  have okE: "\<And>a y. memo' a = Some y \<Longrightarrow>
       a < length rs \<and> length rs \<le> y \<and> y < length rs' \<and> rs' ! y = rs' ! a"
    and inj: "\<And>a a' y. memo' a = Some y \<Longrightarrow> memo' a' = Some y \<Longrightarrow> a = a'"
    using ok unfolding memo_ok_def by blast+
  show "length rs \<le> ys ! i \<and> ys ! i < length rs' \<and> rs' ! (ys ! i) = rs ! (as ! i)"
    if i: "i < length as" for i
  proof -
    from okE [OF m [OF i]] have 1: "as ! i < length rs" "length rs \<le> ys ! i"
      "ys ! i < length rs'" "rs' ! (ys ! i) = rs' ! (as ! i)" by simp_all
    have "rs' ! (as ! i) = rs ! (as ! i)" using take_nth_eq [OF tk 1(1)] 1(1) le by simp
    with 1 show ?thesis by simp
  qed
  show "same_aliasing as ys"
    unfolding same_aliasing_def
  proof (intro conjI allI impI)
    show "length as = length ys" using len by simp
  next
    fix i j assume i: "i < length as" and j: "j < length as"
    show "(as ! i = as ! j) = (ys ! i = ys ! j)"
    proof
      assume "as ! i = as ! j"
      then show "ys ! i = ys ! j" using m [OF i] m [OF j] by simp
    next
      assume "ys ! i = ys ! j"
      then show "as ! i = as ! j" using inj [OF m [OF i]] m [OF j] by simp
    qed
  qed
qed

lemma valid_boardD:
  "valid_board h b \<Longrightarrow> b < length (boards h)"
  "valid_board h b \<Longrightarrow> grid (boards h ! b) < length (outer_lists h)"
  "valid_board h b \<Longrightarrow> \<forall>a\<in>set (row_addrs h b). a < length (row_lists h)"
  by (simp_all add: valid_board_def list_all_iff)

lemma deepcopy_props:
  assumes v: "valid_board h b" and dc: "deepcopy h b = (b', h')"
  shows "b' = length (boards h)"
    and "take (length (boards h)) (boards h') = boards h"
    and "take (length (outer_lists h)) (outer_lists h') = outer_lists h"
    and "take (length (row_lists h)) (row_lists h') = row_lists h"
    and "length (row_lists h) \<le> length (row_lists h')"
    and "valid_board h' b'"
    and "read_grid h' b' = read_grid h b"
    and "same_aliasing (row_addrs h b) (row_addrs h' b')"
    and "\<forall>a\<in>set (row_addrs h' b'). length (row_lists h) \<le> a"
proof -
  let ?as = "row_addrs h b"
  obtain rs' memo' ys where r: "deepcopy_rows (row_lists h) Map.empty ?as = (rs', memo', ys)"
    by (cases "deepcopy_rows (row_lists h) Map.empty ?as") auto
  note p = deepcopy_rows_props [OF valid_boardD(3) [OF v] r]
  have h': "h' = h\<lparr>outer_lists := outer_lists h @ [ys], row_lists := rs',
                   boards := boards h @ [(boards h ! b)\<lparr>grid := length (outer_lists h)\<rparr>]\<rparr>"
    and b': "b' = length (boards h)"
    using dc r by (auto simp: deepcopy_def deepcopy_grid_def row_addrs_def)
  show "b' = length (boards h)" by (rule b')
  show "take (length (boards h)) (boards h') = boards h" by (simp add: h')
  show "take (length (outer_lists h)) (outer_lists h') = outer_lists h" by (simp add: h')
  show "take (length (row_lists h)) (row_lists h') = row_lists h" using p(1) by (simp add: h')
  show "length (row_lists h) \<le> length (row_lists h')" using p(2) by (simp add: h')
  have ra: "row_addrs h' b' = ys" by (simp add: h' b' row_addrs_def)
  have ysn: "\<And>i. i < length ys \<Longrightarrow> length (row_lists h) \<le> ys ! i \<and> ys ! i < length rs' \<and>
      rs' ! (ys ! i) = row_lists h ! (?as ! i)"
    using p(3) p(4) by simp
  show "valid_board h' b'"
    using ysn by (auto simp: valid_board_def ra list_all_length) (simp_all add: h' b')
  show "read_grid h' b' = read_grid h b"
    unfolding read_grid_def ra
    by (rule nth_equalityI) (use p(3) ysn in \<open>auto simp: h'\<close>)
  show "same_aliasing (row_addrs h b) (row_addrs h' b')" using p(5) by (simp add: ra)
  show "\<forall>a\<in>set (row_addrs h' b'). length (row_lists h) \<le> a"
    unfolding ra using ysn by (auto simp: in_set_conv_nth)
qed

section \<open>What the loop does to the store\<close>

declare loop.simps [simp del]

lemma only_rows_of_refl: "only_rows_of wb h h"
  by (simp add: only_rows_of_def)

lemma only_rows_of_trans:
  "only_rows_of wb h h1 \<Longrightarrow> only_rows_of wb h1 h2 \<Longrightarrow> only_rows_of wb h h2"
  by (simp add: only_rows_of_def row_addrs_def)

lemma write_cell_only:
  assumes "write_cell h wb row col num = Inr h'"
  shows "only_rows_of wb h h'"
proof -
  let ?a = "row_addrs h wb ! row"
  from assms have row: "row < length (row_addrs h wb)"
    and h': "h' = h\<lparr>row_lists := (row_lists h)[?a := (row_lists h ! ?a)[col := num]]\<rparr>"
    by (auto simp: write_cell_def Let_def split: if_splits)
  have "?a \<in> set (row_addrs h wb)" using row by simp
  then have "\<And>a. a \<notin> set (row_addrs h wb) \<Longrightarrow> ?a \<noteq> a" by blast
  then show ?thesis unfolding only_rows_of_def h' by (simp add: nth_list_update_neq)
qed

lemma assign_all_only: "only_rows_of wb h (snd (assign_all h wb fs))"
proof (induction fs arbitrary: h)
  case Nil
  show ?case by (simp add: only_rows_of_refl)
next
  case (Cons f fs)
  obtain row col num where f: "f = (row, col, num)" by (cases f) auto
  show ?case
  proof (cases "write_cell h wb row col num")
    case (Inl e)
    then show ?thesis by (simp add: f only_rows_of_refl)
  next
    case (Inr h1)
    have "only_rows_of wb h h1" by (rule write_cell_only [OF Inr])
    moreover have "only_rows_of wb h1 (snd (assign_all h1 wb fs))" by (rule Cons.IH)
    ultimately show ?thesis using Inr by (simp add: f only_rows_of_trans)
  qed
qed

lemma assigned_snd: "snd (assigned tag r) = snd r"
  by (cases r) (auto simp: assigned_def split: option.splits)

lemma iteration_body_heap:
  "snd (iteration_body set_order h wb) = h \<or>
   (\<exists>fs. snd (iteration_body set_order h wb) = snd (assign_all h wb fs))"
  by (auto simp: iteration_body_def assigned_snd Let_def split: sum.splits option.splits)

lemma iteration_body_only: "only_rows_of wb h (snd (iteration_body set_order h wb))"
  using iteration_body_heap [of set_order h wb] assign_all_only [of wb h] only_rows_of_refl [of wb h]
  by auto

lemma loop_only: "only_rows_of wb h (snd (loop set_order h wb used m it))"
proof (induction set_order h wb used m it rule: loop.induct)
  case (1 set_order h wb used m it)
  show ?case
  proof (cases "\<not> is_solved (read_grid h wb) \<and> it < max_iterations")
    case False
    then have "loop set_order h wb used m it =
        (Inr (used, m, it, if is_solved (read_grid h wb) then Solved else IterationCapped), h)"
      by (subst loop.simps) auto
    then show ?thesis by (simp add: only_rows_of_refl)
  next
    case True
    obtain st h1 where b: "iteration_body set_order h wb = (st, h1)"
      by (cases "iteration_body set_order h wb") auto
    have o1: "only_rows_of wb h h1" using iteration_body_only [of wb h set_order] b by simp
    show ?thesis
    proof (cases st)
      case (Raised e)
      then show ?thesis using True b o1 by (subst loop.simps) simp
    next
      case (Applied tag)
      have "only_rows_of wb h1 (snd (loop set_order h1 wb (used @ [tag])
              (max m (technique_score tag)) (it + 1)))"
        using "1.IH" [OF True b [symmetric] Applied] .
      then show ?thesis using True b Applied o1
        by (subst loop.simps) (simp add: only_rows_of_trans)
    next
      case NotApplied
      then show ?thesis using True b o1 by (subst loop.simps) simp
    qed
  qed
qed

lemma upt_9: "[0..<9] = [0, 1, 2, 3, 4, 5, 6, 7, 8]"
  by code_simp

lemma all_less_9: "(\<forall>r<9::nat. P r) \<longleftrightarrow> list_all P [0, 1, 2, 3, 4, 5, 6, 7, 8]"
  unfolding list_all_iff upt_9 [symmetric] by auto

lemma row_lists_store_of: "row_lists (store_of g) = g"
  by (simp add: store_of_def)

lemma valid_store_of: "valid_board (store_of g) 0"
  by (simp add: valid_board_def store_of_def row_addrs_def list_all_iff)

lemma read_grid_store_of: "read_grid (store_of g) 0 = g"
  by (simp add: read_grid_def store_of_def row_addrs_def map_nth)

lemma old_board_kept:
  assumes v: "valid_board h b"
    and bs: "take (length (boards h)) (boards h') = boards h"
    and os: "take (length (outer_lists h)) (outer_lists h') = outer_lists h"
    and rs: "take (length (row_lists h)) (row_lists h') = row_lists h"
  shows "row_addrs h' b = row_addrs h b" and "read_grid h' b = read_grid h b"
    and "valid_board h' b"
proof -
  have lb: "length (boards h) \<le> length (boards h')"
    using arg_cong [OF bs, of length] by simp
  have lo: "length (outer_lists h) \<le> length (outer_lists h')"
    using arg_cong [OF os, of length] by simp
  have lr: "length (row_lists h) \<le> length (row_lists h')"
    using arg_cong [OF rs, of length] by simp
  note vd = valid_boardD [OF v]
  have b: "boards h' ! b = boards h ! b"
    using take_nth_eq [OF bs vd(1)] vd(1) lb by simp
  have o: "outer_lists h' ! grid (boards h ! b) = outer_lists h ! grid (boards h ! b)"
    using take_nth_eq [OF os vd(2)] vd(2) lo by simp
  show ra: "row_addrs h' b = row_addrs h b" by (simp add: row_addrs_def b o)
  have r: "\<And>a. a \<in> set (row_addrs h b) \<Longrightarrow> row_lists h' ! a = row_lists h ! a"
    using take_nth_eq [OF rs] vd(3) lr by fastforce
  show "read_grid h' b = read_grid h b" unfolding read_grid_def ra using r by simp
  show "valid_board h' b"
    using vd lb lo lr unfolding valid_board_def ra b list_all_iff by fastforce
qed

lemma loop_solved:
  "is_solved (read_grid h wb) \<Longrightarrow>
     loop set_order h wb used m it = (Inr (used, m, it, Solved), h)"
  by (subst loop.simps) simp

text \<open>
  Claim C10. On a board whose 81 cells are all non-zero the loop is left at once: no
  iteration is made (the counter is still 0, the exit is \<open>Solved\<close>), and \<^verbatim>\<open>rate_puzzle\<close>
  returns \<^verbatim>\<open>('Easy', 0, [])\<close>.
\<close>

theorem rate_puzzle_solved_board:
  assumes v: "valid_board h board"
    and len: "length (read_grid h board) = 9"
    and cells: "\<forall>r<9. length (read_grid h board ! r) = 9 \<and>
                  (\<forall>c<9. read_grid h board ! r ! c \<noteq> 0)"
  shows "fst (solve_loop set_order h board) = Inr ([], 0, 0, Solved) \<and>
         fst (rate_puzzle set_order h board) = Inr (''Easy'', 0, [])"
proof -
  obtain wb h1 where dc: "deepcopy h board = (wb, h1)" by (cases "deepcopy h board") auto
  have g: "read_grid h1 wb = read_grid h board" by (rule deepcopy_props(7) [OF v dc])
  have "0 \<notin> set row" if "row \<in> set (read_grid h board)" for row
  proof
    assume z: "0 \<in> set row"
    from that obtain r where r: "r < 9" "row = read_grid h board ! r"
      using len by (auto simp: in_set_conv_nth)
    from z obtain c where c: "c < length row" "row ! c = 0" by (auto simp: in_set_conv_nth)
    from cells r c show False by auto
  qed
  then have "is_solved (read_grid h1 wb)" by (simp add: g is_solved_def list_all_iff)
  then have "solve_loop set_order h board = (Inr ([], 0, 0, Solved), h1)"
    by (simp add: solve_loop_def dc loop_solved)
  then show ?thesis by (simp add: rate_puzzle_def classify_def)
qed

theorem rate_puzzle_solved_board_witness:
  "valid_board (store_of solved_grid) 0 \<and> length (read_grid (store_of solved_grid) 0) = 9 \<and>
   fst (solve_loop remdups (store_of solved_grid) 0) = Inr ([], 0, 0, Solved) \<and>
   fst (rate_puzzle remdups (store_of solved_grid) 0) = Inr (''Easy'', 0, [])"
proof -
  have c: "\<forall>r<9. length (read_grid (store_of solved_grid) 0 ! r) = 9 \<and>
                  (\<forall>c<9. read_grid (store_of solved_grid) 0 ! r ! c \<noteq> 0)"
    unfolding read_grid_store_of by (simp add: all_less_9 solved_grid_def)
  show ?thesis
    using rate_puzzle_solved_board [OF valid_store_of _ c, of remdups]
    by (simp add: valid_store_of read_grid_store_of solved_grid_def)
qed

lemma rate_puzzle_extends_store:
  assumes v: "valid_board h board"
    and r: "rate_puzzle set_order h board = (res, h')"
  shows "take (length (boards h)) (boards h') = boards h \<and>
         take (length (outer_lists h)) (outer_lists h') = outer_lists h \<and>
         take (length (row_lists h)) (row_lists h') = row_lists h"
proof -
  obtain wb h1 where dc: "deepcopy h board = (wb, h1)" by (cases "deepcopy h board") auto
  note p = deepcopy_props [OF v dc]
  have h': "h' = snd (loop set_order h1 wb [] 0 0)"
    using r by (auto simp: rate_puzzle_def solve_loop_def dc split: prod.splits sum.splits)
  have o: "only_rows_of wb h1 h'" unfolding h' by (rule loop_only)
  have bs: "take (length (boards h)) (boards h') = boards h"
    using o p(2) by (simp add: only_rows_of_def)
  have os: "take (length (outer_lists h)) (outer_lists h') = outer_lists h"
    using o p(3) by (simp add: only_rows_of_def)
  have rs: "take (length (row_lists h)) (row_lists h') = row_lists h"
  proof (rule nth_equalityI)
    show "length (take (length (row_lists h)) (row_lists h')) = length (row_lists h)"
      using o p(5) by (simp add: only_rows_of_def)
  next
    fix a assume "a < length (take (length (row_lists h)) (row_lists h'))"
    then have a: "a < length (row_lists h)" by simp
    then have "a \<notin> set (row_addrs h1 wb)" using p(9) by auto
    then have "row_lists h' ! a = row_lists h1 ! a" using o by (simp add: only_rows_of_def)
    also have "\<dots> = row_lists h ! a" using take_nth_eq [OF p(4) a] a p(5) by simp
    finally show "take (length (row_lists h)) (row_lists h') ! a = row_lists h ! a"
      using a by simp
  qed
  show ?thesis using bs os rs by simp
qed

text \<open>
  Claim C8. \<^verbatim>\<open>rate_puzzle\<close> leaves the caller's board as it was, whether it returns or
  raises: the grid read through the caller's board is the same after the call, and so is
  every board, outer list and row list that was in the store before the call. All the
  assignments went to the lists of the deep copy, which are new.
\<close>

theorem rate_puzzle_leaves_board:
  assumes v: "valid_board h board"
    and r: "rate_puzzle set_order h board = (res, h')"
  shows "read_grid h' board = read_grid h board \<and>
         take (length (boards h)) (boards h') = boards h \<and>
         take (length (outer_lists h)) (outer_lists h') = outer_lists h \<and>
         take (length (row_lists h)) (row_lists h') = row_lists h"
proof -
  from rate_puzzle_extends_store [OF v r]
  have bs: "take (length (boards h)) (boards h') = boards h"
    and os: "take (length (outer_lists h)) (outer_lists h') = outer_lists h"
    and rs: "take (length (row_lists h)) (row_lists h') = row_lists h"
    by simp_all
  show ?thesis using old_board_kept(2) [OF v bs os rs] bs os rs by simp
qed

theorem rate_puzzle_leaves_board_witness:
  "valid_board (store_of easy_puzzle) 0 \<and>
   read_grid (snd (rate_puzzle remdups (store_of easy_puzzle) 0)) 0 = easy_puzzle \<and>
   take (length easy_puzzle) (row_lists (snd (rate_puzzle remdups (store_of easy_puzzle) 0))) =
     easy_puzzle"
  using rate_puzzle_leaves_board [OF valid_store_of, of remdups easy_puzzle
      "fst (rate_puzzle remdups (store_of easy_puzzle) 0)"
      "snd (rate_puzzle remdups (store_of easy_puzzle) 0)"]
  by (simp add: valid_store_of read_grid_store_of row_lists_store_of)

section \<open>The label of a rating\<close>

lemma rate_solved_grid:
  "fst (rate_puzzle set_order (store_of solved_grid) 0) = Inr (''Easy'', 0, [])"
  by code_simp

text \<open>
  Claim C7. Whatever tuple \<^verbatim>\<open>rate_puzzle\<close> returns, its label is fixed by its
  \<^verbatim>\<open>max_score\<close>: Easy up to 15, Medium above 15 and up to 90, Hard above 90.
\<close>

theorem rate_puzzle_label:
  "rate_puzzle set_order h board = (Inr (difficulty, max_score, techniques_used), h') \<Longrightarrow>
     (max_score \<le> 15 \<longrightarrow> difficulty = ''Easy'') \<and>
     (15 < max_score \<and> max_score \<le> 90 \<longrightarrow> difficulty = ''Medium'') \<and>
     (90 < max_score \<longrightarrow> difficulty = ''Hard'')"
  by (auto simp: rate_puzzle_def classify_def split: prod.splits sum.splits)

theorem rate_puzzle_label_witness:
  "fst (rate_puzzle remdups (store_of solved_grid) 0) = Inr (''Easy'', 0, []) \<and>
   (0::int) \<le> 15 \<and> ''Easy'' = ''Easy''"
  using rate_puzzle_label [of remdups "store_of solved_grid" 0 "''Easy''" 0 "[]"
      "snd (rate_puzzle remdups (store_of solved_grid) 0)"]
    rate_solved_grid [of remdups]
  by (simp add: prod_eq_iff)

section \<open>The candidates of a grid\<close>

lemma cell_at_in_range: "in_range g \<Longrightarrow> r < 9 \<Longrightarrow> c < 9 \<Longrightarrow> cell_at g r c = Inr (g ! r ! c)"
  by (auto simp: in_range_def cell_at_def)

lemma read_cells_in_range:
  "in_range g \<Longrightarrow> \<forall>(r, c)\<in>set ps. r < 9 \<and> c < 9 \<Longrightarrow>
     read_cells g ps = Inr (map (\<lambda>(i, j). g ! i ! j) ps)"
  by (induction ps) (auto simp: cell_at_in_range)

lemma box_lt: "r < 9 \<Longrightarrow> i < r div 3 * 3 + 3 \<Longrightarrow> i < (9::nat)"
  by presburger

lemma seen_cells_lt:
  assumes "r < 9" "c < 9" "(i, j) \<in> set (seen_cells r c)"
  shows "i < 9 \<and> j < 9"
proof -
  from assms(3) consider "i = r \<and> j < 9" | "i < 9 \<and> j = c"
    | "i < r div 3 * 3 + 3 \<and> j < c div 3 * 3 + 3"
    unfolding seen_cells_def by auto
  then show ?thesis
    using assms(1,2) box_lt [OF assms(1), of i] box_lt [OF assms(2), of j] by cases simp_all
qed

lemma get_candidates_in_range:
  assumes "in_range g" "r < 9" "c < 9" "g ! r ! c = 0"
  shows "get_candidates g r c =
           Inr (discard_seen (map (\<lambda>(i, j). g ! i ! j) (seen_cells r c)) (set [1..9]))"
proof -
  have lt: "\<forall>(i, j)\<in>set (seen_cells r c). i < 9 \<and> j < 9"
    using seen_cells_lt [OF assms(2,3)] by blast
  have rc: "read_cells g (seen_cells r c) = Inr (map (\<lambda>(i, j). g ! i ! j) (seen_cells r c))"
    by (rule read_cells_in_range [OF assms(1) lt])
  have ca: "cell_at g r c = Inr 0"
    using cell_at_in_range [OF assms(1-3)] assms(4) by simp
  show ?thesis
    unfolding get_candidates_def ca Let_def seen_cells_def [symmetric] rc by simp
qed

lemma init_loop_in_range:
  "in_range g \<Longrightarrow> \<forall>(r, c)\<in>set ps. r < 9 \<and> c < 9 \<Longrightarrow>
     init_loop g ps acc =
       Inr (acc @ map (\<lambda>(r, c). ((r, c),
              discard_seen (map (\<lambda>(i, j). g ! i ! j) (seen_cells r c)) (set [1..9])))
            (filter (\<lambda>(r, c). g ! r ! c = 0) ps))"
  by (induction ps arbitrary: acc) (auto simp: cell_at_in_range get_candidates_in_range)

lemma all_cells_iff: "(r, c) \<in> set all_cells \<longleftrightarrow> r < 9 \<and> c < 9"
  by (auto simp: all_cells_def image_iff)

lemma init_candidates_in_range: "in_range g \<Longrightarrow> init_candidates g = Inr (candidates_of g)"
  unfolding init_candidates_def candidates_of_def
  by (subst init_loop_in_range) (auto simp: all_cells_iff)

lemma discard_seen_eq: "discard_seen vs P = P - (set vs - {0})"
  unfolding discard_seen_def by (induction vs arbitrary: P) auto

lemma map_of_filter_map:
  "map_of (map (\<lambda>(r, c). ((r, c), f r c)) (filter (\<lambda>(r, c). P r c) ks)) (r, c) =
     (if (r, c) \<in> set ks \<and> P r c then Some (f r c) else None)"
  by (induction ks) auto

lemma map_of_candidates_of:
  "map_of (candidates_of g) (r, c) =
     (if r < 9 \<and> c < 9 \<and> g ! r ! c = 0
      then Some (set [1..9] - (set (map (\<lambda>(i, j). g ! i ! j) (seen_cells r c)) - {0}))
      else None)"
  unfolding candidates_of_def map_of_filter_map all_cells_iff discard_seen_eq by simp

lemma box_range: "i \<in> set [k * 3..<k * 3 + 3] \<longleftrightarrow> i div 3 = (k::nat)"
proof
  assume "i \<in> set [k * 3..<k * 3 + 3]"
  then have "3 * k \<le> i" "i < 3 * Suc k" by auto
  then show "i div 3 = k" by (rule div_nat_eqI)
next
  assume k: "i div 3 = k"
  have "i div 3 * 3 \<le> i" by (rule div_times_less_eq_dividend)
  moreover have "i < 3 + i div 3 * 3" by (rule dividend_less_div_times) simp
  ultimately show "i \<in> set [k * 3..<k * 3 + 3]" using k by auto
qed

lemma seen_values:
  assumes "length g = 9" "\<forall>row\<in>set g. length row = 9" "r < 9" "c < 9"
  shows "set (map (\<lambda>(i, j). g ! i ! j) (seen_cells r c)) =
           set (g ! r) \<union> {g ! i ! c |i. i < 9} \<union>
           {g ! i ! j |i j. i div 3 = r div 3 \<and> j div 3 = c div 3}"
proof -
  have lr: "length (g ! r) = 9" using assms by simp
  have row: "set (map (\<lambda>(i, j). g ! i ! j) (map (\<lambda>c. (r, c)) [0..<9])) = set (g ! r)"
  proof -
    have "map (\<lambda>(i, j). g ! i ! j) (map (\<lambda>c. (r, c)) [0..<9]) = map ((!) (g ! r)) [0..<length (g ! r)]"
      by (simp add: lr)
    then show ?thesis by (simp only: map_nth)
  qed
  have col: "set (map (\<lambda>(i, j). g ! i ! j) (map (\<lambda>r. (r, c)) [0..<9])) = {g ! i ! c |i. i < 9}"
    by auto
  have box: "set (map (\<lambda>(i, j). g ! i ! j)
        (concat (map (\<lambda>r. map (\<lambda>c. (r, c)) [(c div 3) * 3..<(c div 3) * 3 + 3])
               [(r div 3) * 3..<(r div 3) * 3 + 3]))) =
      {g ! i ! j |i j. i div 3 = r div 3 \<and> j div 3 = c div 3}" (is "?L = ?R")
  proof (intro set_eqI iffI)
    fix v assume "v \<in> ?L"
    then obtain i j where "i \<in> set [(r div 3) * 3..<(r div 3) * 3 + 3]"
      "j \<in> set [(c div 3) * 3..<(c div 3) * 3 + 3]" "v = g ! i ! j"
      by auto
    then show "v \<in> ?R"
      unfolding box_range by blast
  next
    fix v assume "v \<in> ?R"
    then obtain i j where ij: "i div 3 = r div 3" "j div 3 = c div 3" "v = g ! i ! j" by blast
    then have "i \<in> set [(r div 3) * 3..<(r div 3) * 3 + 3]"
      "j \<in> set [(c div 3) * 3..<(c div 3) * 3 + 3]"
      unfolding box_range by simp_all
    then have "(i, j) \<in> set (concat (map (\<lambda>r. map (\<lambda>c. (r, c)) [(c div 3) * 3..<(c div 3) * 3 + 3])
               [(r div 3) * 3..<(r div 3) * 3 + 3]))"
      by (simp del: set_upt) blast
    then show "v \<in> ?L" unfolding ij(3) set_map by (rule rev_image_eqI) simp
  qed
  show ?thesis unfolding seen_cells_def map_append set_append row col box by blast
qed

lemma in_range_9x9: "length g = 9 \<Longrightarrow> \<forall>row\<in>set g. length row = 9 \<Longrightarrow> in_range g"
  by (simp add: in_range_def)

text \<open>
  Claim C6. For a 9 by 9 grid \<^verbatim>\<open>_init_candidates\<close> returns a dict in which \<open>(r, c)\<close> is a
  key if and only if it is a cell of the grid that holds 0, and the value at such a key
  is the set 1 to 9 without every digit found in the row, the column or the 3 by 3 box
  of the cell.
\<close>

theorem init_candidates_invariant:
  assumes "length g = 9" and "\<forall>row\<in>set g. length row = 9"
  shows "\<exists>cands. init_candidates g = Inr cands \<and>
     (\<forall>r c. map_of cands (r, c) =
        (if r < 9 \<and> c < 9 \<and> g ! r ! c = 0
         then Some ({1..9} - (set (g ! r) \<union> {g ! i ! c |i. i < 9} \<union>
                      {g ! i ! j |i j. i div 3 = r div 3 \<and> j div 3 = c div 3}))
         else None))"
proof (intro exI conjI allI)
  show "init_candidates g = Inr (candidates_of g)"
    by (rule init_candidates_in_range [OF in_range_9x9 [OF assms]])
next
  fix r c
  show "map_of (candidates_of g) (r, c) =
        (if r < 9 \<and> c < 9 \<and> g ! r ! c = 0
         then Some ({1..9} - (set (g ! r) \<union> {g ! i ! c |i. i < 9} \<union>
                      {g ! i ! j |i j. i div 3 = r div 3 \<and> j div 3 = c div 3}))
         else None)"
  proof (cases "r < 9 \<and> c < 9")
    case True
    have "{1..9} - (set (map (\<lambda>(i, j). g ! i ! j) (seen_cells r c)) - {0}) =
          {1..9::int} - set (map (\<lambda>(i, j). g ! i ! j) (seen_cells r c))"
      by auto
    then show ?thesis
      unfolding map_of_candidates_of using seen_values [OF assms, of r c] True
      by (simp del: set_map)
  next
    case False
    then show ?thesis unfolding map_of_candidates_of by auto
  qed
qed

lemma easy_puzzle_seen: "{1..9} - set (map (\<lambda>(i, j). easy_puzzle ! i ! j) (seen_cells 8 6)) = {1}"
  by code_simp

theorem init_candidates_invariant_witness:
  "length easy_puzzle = 9 \<and> list_all (\<lambda>row. length row = 9) easy_puzzle \<and>
   (\<exists>cands. init_candidates easy_puzzle = Inr cands \<and>
      map_of cands (0, 0) = None \<and> map_of cands (8, 6) = Some {1})"
proof -
  have l: "length easy_puzzle = 9" and a: "\<forall>row\<in>set easy_puzzle. length row = 9"
    by (simp_all add: easy_puzzle_def)
  from init_candidates_invariant [OF l a] obtain cands
    where c: "init_candidates easy_puzzle = Inr cands"
      and m: "\<And>r c. map_of cands (r, c) =
        (if r < 9 \<and> c < 9 \<and> easy_puzzle ! r ! c = 0
         then Some ({1..9} - (set (easy_puzzle ! r) \<union> {easy_puzzle ! i ! c |i. i < 9} \<union>
                      {easy_puzzle ! i ! j |i j. i div 3 = r div 3 \<and> j div 3 = c div 3}))
         else None)"
    by blast
  have z: "easy_puzzle ! 0 ! 0 = 5" by (simp add: easy_puzzle_def)
  have lt: "(8::nat) < 9" "(6::nat) < 9" by simp_all
  have e: "(8::nat) < 9 \<and> (6::nat) < 9 \<and> easy_puzzle ! 8 ! 6 = 0" by (simp add: easy_puzzle_def)
  have "map_of cands (0, 0) = None" unfolding m z by simp
  moreover have "map_of cands (8, 6) = Some {1}"
    unfolding m if_P [OF e] seen_values [OF l a lt, symmetric] easy_puzzle_seen ..
  ultimately show ?thesis using c l a by (auto simp: list_all_iff)
qed

section \<open>What the appliers do to the candidates\<close>

lemma map_of_discard:
  "map_of (discard cands k num) k' =
     (if k' = k then map_option (\<lambda>s. s - {num}) (map_of cands k) else map_of cands k')"
  unfolding discard_def by (induction cands) auto

lemma map_of_eliminate:
  "map_of (fst (eliminate (k, num) st)) k' =
     map_option (\<lambda>s. if k' = k then s - {num} else s) (map_of (fst st) k')"
proof (cases st)
  case (Pair cands n)
  show ?thesis
  proof (cases "is_candidate cands k num")
    case True
    then show ?thesis
      by (cases "map_of cands k'") (auto simp: Pair eliminate_def map_of_discard)
  next
    case False
    then show ?thesis
      by (cases "map_of cands k'") (auto simp: Pair eliminate_def is_candidate_def)
  qed
qed

lemma map_of_fold_eliminate:
  "map_of (fst (fold eliminate ts st)) k =
     map_option (\<lambda>s. s - {d. (k, d) \<in> set ts}) (map_of (fst st) k)"
proof (induction ts arbitrary: st)
  case Nil
  show ?case by (simp add: option.map_ident)
next
  case (Cons t ts)
  obtain k' num where t: "t = (k', num)" by (cases t) auto
  have "{d. (k, d) \<in> set (t # ts)} = (if k = k' then {num} else {}) \<union> {d. (k, d) \<in> set ts}"
    by (auto simp: t)
  then show ?case
    by (cases "map_of (fst st) k") (auto simp: Cons.IH t map_of_eliminate)
qed

lemma eliminate_count: "snd st \<le> snd (eliminate t st)"
  by (cases t; cases st) (simp add: eliminate_def)

lemma fold_eliminate_count: "snd st \<le> snd (fold eliminate ts st)"
proof (induction ts arbitrary: st)
  case Nil
  show ?case by simp
next
  case (Cons t ts)
  have "snd st \<le> snd (eliminate t st)" by (rule eliminate_count)
  also have "\<dots> \<le> snd (fold eliminate ts (eliminate t st))" by (rule Cons.IH)
  finally show ?case by simp
qed

lemma eliminate_cases:
  "eliminate t st = st \<or> snd (eliminate t st) = Suc (snd st)"
  by (cases t; cases st) (simp add: eliminate_def)

lemma fold_eliminate_unchanged:
  "snd (fold eliminate ts st) = snd st \<Longrightarrow> fold eliminate ts st = st"
proof (induction ts arbitrary: st)
  case Nil
  show ?case by simp
next
  case (Cons t ts)
  from eliminate_cases [of t st] show ?case
  proof
    assume e: "eliminate t st = st"
    then show ?thesis using Cons by simp
  next
    assume "snd (eliminate t st) = Suc (snd st)"
    moreover have "snd (eliminate t st) \<le> snd (fold eliminate ts (eliminate t st))"
      by (rule fold_eliminate_count)
    ultimately show ?thesis using Cons.prems by simp
  qed
qed

lemma fold_fold_eliminate:
  "fold (\<lambda>p st. fold eliminate (targets p) st) ps st = fold eliminate (concat (map targets ps)) st"
  by (induction ps arbitrary: st) simp_all

lemma fold_eliminate_zero:
  "snd (fold eliminate ts (cands, 0)) = 0 \<Longrightarrow> fst (fold eliminate ts (cands, 0)) = cands"
  using fold_eliminate_unchanged [of ts "(cands, 0)"] by simp

lemmas applier_defs =
  apply_naked_pairs_def apply_pointing_pairs_def apply_x_wing_def apply_swordfish_def
  apply_xy_wing_def

lemma appliers_unchanged:
  "snd (apply_naked_pairs cands nps) = 0 \<Longrightarrow> fst (apply_naked_pairs cands nps) = cands"
  "snd (apply_pointing_pairs cands pps) = 0 \<Longrightarrow> fst (apply_pointing_pairs cands pps) = cands"
  "snd (apply_x_wing cands xws) = 0 \<Longrightarrow> fst (apply_x_wing cands xws) = cands"
  "snd (apply_swordfish cands sfs) = 0 \<Longrightarrow> fst (apply_swordfish cands sfs) = cands"
  "snd (apply_xy_wing cands xys) = 0 \<Longrightarrow> fst (apply_xy_wing cands xys) = cands"
  unfolding applier_defs fold_fold_eliminate by (erule fold_eliminate_zero)+

section \<open>One iteration of the engine\<close>


lemma apply_nil:
  "apply_naked_pairs cands [] = (cands, 0)" "apply_pointing_pairs cands [] = (cands, 0)"
  "apply_x_wing cands [] = (cands, 0)" "apply_swordfish cands [] = (cands, 0)"
  "apply_xy_wing cands [] = (cands, 0)"
  by (simp_all add: applier_defs)

lemma try_technique_effect:
  assumes "\<And>fs. snd (apply_it cands fs) = 0 \<Longrightarrow> fst (apply_it cands fs) = cands"
    and "apply_it cands [] = (cands, 0)"
  shows "fst (try_technique find_it apply_it cands) = (0 < snd (apply_it cands (find_it cands)))"
    and "\<not> fst (try_technique find_it apply_it cands) \<Longrightarrow>
           snd (try_technique find_it apply_it cands) = cands"
  using assms(1) [of "find_it cands"] assms(2)
  by (auto simp: try_technique_def Let_def split: prod.splits)

lemma eliminations_spec:
  "eliminations cands =
     first_effective
       [(''naked_pair'', snd (apply_naked_pairs cands (find_naked_pairs cands))),
        (''pointing_pair'', snd (apply_pointing_pairs cands (find_pointing_pairs cands))),
        (''x_wing'', snd (apply_x_wing cands (find_x_wing cands))),
        (''swordfish'', snd (apply_swordfish cands (find_swordfish cands))),
        (''xy_wing'', snd (apply_xy_wing cands (find_xy_wing cands)))]"
proof -
  note e3 = try_technique_effect [where apply_it = apply_naked_pairs and cands = cands
      and find_it = find_naked_pairs, OF appliers_unchanged(1) apply_nil(1)]
  note e4 = try_technique_effect [where apply_it = apply_pointing_pairs and cands = cands
      and find_it = find_pointing_pairs, OF appliers_unchanged(2) apply_nil(2)]
  note e5 = try_technique_effect [where apply_it = apply_x_wing and cands = cands
      and find_it = find_x_wing, OF appliers_unchanged(3) apply_nil(3)]
  note e6 = try_technique_effect [where apply_it = apply_swordfish and cands = cands
      and find_it = find_swordfish, OF appliers_unchanged(4) apply_nil(4)]
  note e7 = try_technique_effect [where apply_it = apply_xy_wing and cands = cands
      and find_it = find_xy_wing, OF appliers_unchanged(5) apply_nil(5)]
  obtain b3 c3 where t3: "try_technique find_naked_pairs apply_naked_pairs cands = (b3, c3)"
    by (cases "try_technique find_naked_pairs apply_naked_pairs cands") auto
  show ?thesis
  proof (cases b3)
    case True
    then show ?thesis using e3(1) t3 by (simp add: eliminations_def first_effective_def)
  next
    case False
    then have c3: "c3 = cands" and n3: "\<not> 0 < snd (apply_naked_pairs cands (find_naked_pairs cands))"
      using e3 t3 by simp_all
    obtain b4 c4 where t4: "try_technique find_pointing_pairs apply_pointing_pairs cands = (b4, c4)"
      by (cases "try_technique find_pointing_pairs apply_pointing_pairs cands") auto
    show ?thesis
    proof (cases b4)
      case True
      then show ?thesis using e4(1) t3 t4 False c3 n3
        by (simp add: eliminations_def first_effective_def)
    next
      case b4: False
      then have c4: "c4 = cands"
        and n4: "\<not> 0 < snd (apply_pointing_pairs cands (find_pointing_pairs cands))"
        using e4 t4 by simp_all
      obtain b5 c5 where t5: "try_technique find_x_wing apply_x_wing cands = (b5, c5)"
        by (cases "try_technique find_x_wing apply_x_wing cands") auto
      show ?thesis
      proof (cases b5)
        case True
        then show ?thesis using e5(1) t3 t4 t5 False b4 c3 c4 n3 n4
          by (simp add: eliminations_def first_effective_def)
      next
        case b5: False
        then have c5: "c5 = cands"
          and n5: "\<not> 0 < snd (apply_x_wing cands (find_x_wing cands))"
          using e5 t5 by simp_all
        obtain b6 c6 where t6: "try_technique find_swordfish apply_swordfish cands = (b6, c6)"
          by (cases "try_technique find_swordfish apply_swordfish cands") auto
        show ?thesis
        proof (cases b6)
          case True
          then show ?thesis using e6(1) t3 t4 t5 t6 False b4 b5 c3 c4 c5 n3 n4 n5
            by (simp add: eliminations_def first_effective_def)
        next
          case b6: False
          then have c6: "c6 = cands"
            and n6: "\<not> 0 < snd (apply_swordfish cands (find_swordfish cands))"
            using e6 t6 by simp_all
          obtain b7 c7 where t7: "try_technique find_xy_wing apply_xy_wing cands = (b7, c7)"
            by (cases "try_technique find_xy_wing apply_xy_wing cands") auto
          have b7: "b7 = (0 < snd (apply_xy_wing cands (find_xy_wing cands)))"
            using e7(1) t7 by simp
          show ?thesis using t3 t4 t5 t6 t7 False b4 b5 b6 b7 c3 c4 c5 c6 n3 n4 n5 n6
            by (simp add: eliminations_def first_effective_def)
        qed
      qed
    qed
  qed
qed

lemma length_update_row: "length ((xs[a := (xs ! a)[c := n]]) ! b) = length (xs ! b)"
  by (cases "a < length xs") (simp_all add: nth_list_update list_update_beyond)

lemma write_cell_in_range:
  assumes "in_range (read_grid h wb)" "r < 9" "c < 9"
  shows "\<exists>h'. write_cell h wb r c n = Inr h' \<and> in_range (read_grid h' wb)"
proof -
  let ?as = "row_addrs h wb"
  let ?h' = "h\<lparr>row_lists := (row_lists h)[?as ! r := (row_lists h ! (?as ! r))[c := n]]\<rparr>"
  from assms have len: "9 \<le> length ?as"
    and rows: "\<And>i. i < 9 \<Longrightarrow> 9 \<le> length (row_lists h ! (?as ! i))"
    by (auto simp: in_range_def read_grid_def)
  have w: "write_cell h wb r c n = Inr ?h'"
    using len rows [OF assms(2)] assms(2,3) by (simp add: write_cell_def Let_def)
  have ra: "row_addrs ?h' wb = ?as" by (simp add: row_addrs_def)
  have "in_range (read_grid ?h' wb)"
    unfolding in_range_def read_grid_def ra using len rows by (simp add: length_update_row)
  with w show ?thesis by blast
qed

lemma assign_all_in_range:
  "in_range (read_grid h wb) \<Longrightarrow> \<forall>(r, c, n)\<in>set fs. r < 9 \<and> c < 9 \<Longrightarrow>
     fst (assign_all h wb fs) = None \<and> in_range (read_grid (snd (assign_all h wb fs)) wb)"
proof (induction fs arbitrary: h)
  case Nil
  then show ?case by simp
next
  case (Cons f fs)
  obtain r c n where f: "f = (r, c, n)" by (cases f) auto
  with Cons.prems have rc: "r < 9" "c < 9" and rest: "\<forall>(r, c, n)\<in>set fs. r < 9 \<and> c < 9"
    by auto
  from write_cell_in_range [OF Cons.prems(1) rc] obtain h'
    where w: "write_cell h wb r c n = Inr h'" and i: "in_range (read_grid h' wb)" by blast
  show ?case using Cons.IH [OF i rest] w by (simp add: f)
qed

lemma naked_singles_lt:
  "(r, c, n) \<in> set (find_naked_singles (candidates_of g)) \<Longrightarrow> r < 9 \<and> c < 9"
  unfolding find_naked_singles_def candidates_of_def
  by (auto simp: all_cells_iff split: if_splits)

lemma hidden_result_subset:
  "(r, c, n) \<in> set (hidden_result ps num) \<Longrightarrow> (r, c) \<in> set ps"
  unfolding hidden_result_def
  by (cases ps) (auto split: if_splits)

lemma box_cells_lt: "box_idx < 9 \<Longrightarrow> (r, c) \<in> set (box_cells ((box_idx div 3) * 3) ((box_idx mod 3) * 3))
    \<Longrightarrow> r < 9 \<and> c < 9"
proof -
  assume b: "box_idx < 9" and m: "(r, c) \<in> set (box_cells ((box_idx div 3) * 3) ((box_idx mod 3) * 3))"
  from m have "r < box_idx div 3 * 3 + 3" "c < box_idx mod 3 * 3 + 3"
    by (auto simp: box_cells_def)
  moreover have "box_idx div 3 \<le> 2" "box_idx mod 3 \<le> 2" using b by simp_all
  ultimately show ?thesis by simp
qed

lemma hidden_singles_lt:
  assumes ok: "set_order_ok set_order"
    and m: "(r, c, n) \<in> set (find_hidden_singles set_order g cands)"
  shows "r < 9 \<and> c < 9"
proof -
  from ok m have "(r, c, n) \<in> set (concat (map (find_hidden_in_row g cands) [0..<9])) \<or>
      (r, c, n) \<in> set (concat (map (find_hidden_in_col g cands) [0..<9])) \<or>
      (r, c, n) \<in> set (concat (map (find_hidden_in_box g cands) [0..<9]))"
    unfolding find_hidden_singles_def set_order_ok_def by auto
  then show ?thesis
  proof (elim disjE)
    assume "(r, c, n) \<in> set (concat (map (find_hidden_in_row g cands) [0..<9]))"
    then show ?thesis
      unfolding find_hidden_in_row_def
      by (auto split: if_splits dest!: hidden_result_subset)
  next
    assume "(r, c, n) \<in> set (concat (map (find_hidden_in_col g cands) [0..<9]))"
    then show ?thesis
      unfolding find_hidden_in_col_def
      by (auto split: if_splits dest!: hidden_result_subset)
  next
    assume "(r, c, n) \<in> set (concat (map (find_hidden_in_box g cands) [0..<9]))"
    then obtain box_idx where b: "box_idx < 9"
      and "(r, c) \<in> set (box_cells ((box_idx div 3) * 3) ((box_idx mod 3) * 3))"
      unfolding find_hidden_in_box_def Let_def
      by (auto split: if_splits dest!: hidden_result_subset)
    then show ?thesis by (rule box_cells_lt)
  qed
qed

lemma technique_score_spec:
  "tag \<in> {''naked_single'', ''hidden_single'', ''naked_pair'', ''pointing_pair'', ''x_wing'',
           ''swordfish'', ''xy_wing''} \<Longrightarrow> technique_score tag = spec_weight tag"
  by (auto simp: technique_score_def TECHNIQUE_SCORES_def)

lemma eliminations_tag:
  "eliminations cands = Some tag \<Longrightarrow>
     tag \<in> {''naked_pair'', ''pointing_pair'', ''x_wing'', ''swordfish'', ''xy_wing''}"
  unfolding eliminations_def by (auto split: prod.splits bool.splits)

lemma first_effective_Cons:
  "first_effective ((tag, n) # es) = (if 0 < n then Some tag else first_effective es)"
  by (simp add: first_effective_def)

lemma keys_candidates_of:
  "map fst (candidates_of g) = filter (\<lambda>(r, c). g ! r ! c = 0) all_cells"
proof -
  have "map fst (map (\<lambda>(r, c). ((r, c), f r c)) ks) = ks" for f :: "nat \<Rightarrow> nat \<Rightarrow> int set" and ks
    by (induction ks) auto
  then show ?thesis unfolding candidates_of_def .
qed

lemma seen_values_range:
  "set (map (\<lambda>(i, j). g ! i ! j) (seen_cells r c)) =
     {g ! r ! j |j. j < 9} \<union> {g ! i ! c |i. i < 9} \<union>
     {g ! i ! j |i j. i div 3 = r div 3 \<and> j div 3 = c div 3}"
proof -
  have row: "set (map (\<lambda>(i, j). g ! i ! j) (map (\<lambda>c. (r, c)) [0..<9])) = {g ! r ! j |j. j < 9}"
    by auto
  have col: "set (map (\<lambda>(i, j). g ! i ! j) (map (\<lambda>r. (r, c)) [0..<9])) = {g ! i ! c |i. i < 9}"
    by auto
  have box: "set (map (\<lambda>(i, j). g ! i ! j)
        (concat (map (\<lambda>r. map (\<lambda>c. (r, c)) [(c div 3) * 3..<(c div 3) * 3 + 3])
               [(r div 3) * 3..<(r div 3) * 3 + 3]))) =
      {g ! i ! j |i j. i div 3 = r div 3 \<and> j div 3 = c div 3}" (is "?L = ?R")
  proof (intro set_eqI iffI)
    fix v assume "v \<in> ?L"
    then obtain i j where "i \<in> set [(r div 3) * 3..<(r div 3) * 3 + 3]"
      "j \<in> set [(c div 3) * 3..<(c div 3) * 3 + 3]" "v = g ! i ! j"
      by auto
    then show "v \<in> ?R"
      unfolding box_range by blast
  next
    fix v assume "v \<in> ?R"
    then obtain i j where ij: "i div 3 = r div 3" "j div 3 = c div 3" "v = g ! i ! j" by blast
    then have "i \<in> set [(r div 3) * 3..<(r div 3) * 3 + 3]"
      "j \<in> set [(c div 3) * 3..<(c div 3) * 3 + 3]"
      unfolding box_range by simp_all
    then have "(i, j) \<in> set (concat (map (\<lambda>r. map (\<lambda>c. (r, c)) [(c div 3) * 3..<(c div 3) * 3 + 3])
               [(r div 3) * 3..<(r div 3) * 3 + 3]))"
      by (simp del: set_upt) blast
    then show "v \<in> ?L" unfolding ij(3) set_map by (rule rev_image_eqI) simp
  qed
  show ?thesis unfolding seen_cells_def map_append set_append row col box by blast
qed

lemma candidates_of_values:
  "map_of (candidates_of g) (r, c) =
     (if r < 9 \<and> c < 9 \<and> g ! r ! c = 0
      then Some ({1..9} - ({g ! r ! j |j. j < 9} \<union> {g ! i ! c |i. i < 9} \<union>
                   {g ! i ! j |i j. i div 3 = r div 3 \<and> j div 3 = c div 3}))
      else None)"
proof -
  have "{1..9} - (set (map (\<lambda>(i, j). g ! i ! j) (seen_cells r c)) - {0}) =
        {1..9::int} - set (map (\<lambda>(i, j). g ! i ! j) (seen_cells r c))"
    by auto
  then show ?thesis
    unfolding map_of_candidates_of seen_values_range [symmetric] by (simp del: set_map)
qed

text \<open>
  Claim C3. In an iteration on an unsolved grid (below the cap, the grid at least 9 by
  9) the candidate map is built from the grid as it is now: its keys are the cells that
  hold 0, in the order of the rows and columns, and the value at a key is the set 1 to 9
  without every digit of the row, the column and the 3 by 3 box of the cell. The seven
  techniques are tried in the order naked single, hidden single, naked pair, pointing
  pair, X-Wing, Swordfish, XY-Wing, each on that candidate map; the first whose effect
  is not zero has its tag appended to \<^verbatim>\<open>techniques_used\<close> and \<^verbatim>\<open>max_score\<close> raised to the
  maximum with its weight, and the loop goes on; when none has an effect the engine
  appends \<^verbatim>\<open>requires_expert_technique\<close>, raises \<^verbatim>\<open>max_score\<close> to 200 at least and stops.
\<close>

theorem loop_iteration:
  assumes unsolved: "\<not> is_solved (read_grid h wb)"
    and below: "iteration < max_iterations"
    and shape: "in_range (read_grid h wb)"
    and ok: "set_order_ok set_order"
  shows "\<exists>cands. init_candidates (read_grid h wb) = Inr cands \<and>
     map fst cands = filter (\<lambda>(r, c). read_grid h wb ! r ! c = 0) all_cells \<and>
     (\<forall>r c. map_of cands (r, c) =
        (if r < 9 \<and> c < 9 \<and> read_grid h wb ! r ! c = 0
         then Some ({1..9} - ({read_grid h wb ! r ! j |j. j < 9} \<union>
                      {read_grid h wb ! i ! c |i. i < 9} \<union>
                      {read_grid h wb ! i ! j |i j. i div 3 = r div 3 \<and> j div 3 = c div 3}))
         else None)) \<and>
     loop set_order h wb techniques_used max_score iteration =
       (case first_effective (technique_effects set_order (read_grid h wb) cands) of
          Some tag \<Rightarrow>
            loop set_order (after_technique set_order h wb cands tag) wb
              (techniques_used @ [tag]) (max max_score (spec_weight tag)) (iteration + 1)
        | None \<Rightarrow>
            (Inr (techniques_used @ [''requires_expert_technique''], max max_score 200,
                  iteration + 1, Stuck), h))"
proof (intro exI conjI allI)
  let ?g = "read_grid h wb"
  let ?c = "candidates_of ?g"
  show ic: "init_candidates ?g = Inr ?c" by (rule init_candidates_in_range [OF shape])
  show "map fst ?c = filter (\<lambda>(r, c). ?g ! r ! c = 0) all_cells"
    by (rule keys_candidates_of)
  show "map_of ?c (r, c) =
        (if r < 9 \<and> c < 9 \<and> ?g ! r ! c = 0
         then Some ({1..9} - ({?g ! r ! j |j. j < 9} \<union> {?g ! i ! c |i. i < 9} \<union>
                      {?g ! i ! j |i j. i div 3 = r div 3 \<and> j div 3 = c div 3}))
         else None)" for r c
    by (rule candidates_of_values)
  let ?ns = "find_naked_singles ?c" and ?hs = "find_hidden_singles set_order ?g ?c"
  have L: "loop set_order h wb techniques_used max_score iteration =
      (case iteration_body set_order h wb of
         (Raised e, h') \<Rightarrow> (Inl e, h')
       | (Applied tag, h') \<Rightarrow>
           loop set_order h' wb (techniques_used @ [tag])
             (max max_score (technique_score tag)) (iteration + 1)
       | (NotApplied, h') \<Rightarrow>
           (Inr (techniques_used @ [''requires_expert_technique''], max max_score 200,
                 iteration + 1, Stuck), h'))"
    using unsolved below by (subst loop.simps) simp
  show "loop set_order h wb techniques_used max_score iteration =
       (case first_effective (technique_effects set_order ?g ?c) of
          Some tag \<Rightarrow>
            loop set_order (after_technique set_order h wb ?c tag) wb
              (techniques_used @ [tag]) (max max_score (spec_weight tag)) (iteration + 1)
        | None \<Rightarrow>
            (Inr (techniques_used @ [''requires_expert_technique''], max max_score 200,
                  iteration + 1, Stuck), h))"
  proof (cases "?ns \<noteq> []")
    case True
    have "fst (assign_all h wb ?ns) = None"
      using assign_all_in_range [OF shape, of ?ns] naked_singles_lt [of _ _ _ ?g] by blast
    then have b: "iteration_body set_order h wb =
        (Applied ''naked_single'', snd (assign_all h wb ?ns))"
      using True ic by (cases "assign_all h wb ?ns") (simp add: iteration_body_def assigned_def)
    have f: "first_effective (technique_effects set_order ?g ?c) = Some ''naked_single''"
      using True by (simp add: technique_effects_def first_effective_Cons)
    show ?thesis
      unfolding L b f by (simp add: after_technique_def technique_score_spec)
  next
    case ns: False
    show ?thesis
    proof (cases "?hs \<noteq> []")
      case True
      have "fst (assign_all h wb ?hs) = None"
        using assign_all_in_range [OF shape, of ?hs] hidden_singles_lt [OF ok, of _ _ _ ?g ?c]
        by blast
      then have b: "iteration_body set_order h wb =
          (Applied ''hidden_single'', snd (assign_all h wb ?hs))"
        using True ns ic
        by (cases "assign_all h wb ?hs") (simp add: iteration_body_def assigned_def)
      have f: "first_effective (technique_effects set_order ?g ?c) = Some ''hidden_single''"
        using True ns by (simp add: technique_effects_def first_effective_Cons)
      show ?thesis
        unfolding L b f by (simp add: after_technique_def technique_score_spec)
    next
      case hs: False
      have f: "first_effective (technique_effects set_order ?g ?c) = eliminations ?c"
        using ns hs unfolding technique_effects_def eliminations_spec
        by (simp add: first_effective_Cons)
      show ?thesis
      proof (cases "eliminations ?c")
        case None
        then have b: "iteration_body set_order h wb = (NotApplied, h)"
          using ns hs ic by (simp add: iteration_body_def)
        show ?thesis unfolding L b f None by simp
      next
        case (Some tag)
        then have b: "iteration_body set_order h wb = (Applied tag, h)"
          using ns hs ic by (simp add: iteration_body_def)
        have t: "tag \<in> {''naked_pair'', ''pointing_pair'', ''x_wing'', ''swordfish'', ''xy_wing''}"
          by (rule eliminations_tag [OF Some])
        then have a: "after_technique set_order h wb ?c tag = h"
          by (auto simp: after_technique_def)
        have w: "technique_score tag = spec_weight tag"
          using t by (intro technique_score_spec) blast
        show ?thesis unfolding L b f Some by (simp add: a w del: spec_weight.simps)
      qed
    qed
  qed
qed

lemma in_range_easy_puzzle: "in_range easy_puzzle"
  by (simp add: in_range_def all_less_9 easy_puzzle_def)

lemma set_order_ok_remdups: "set_order_ok remdups"
  by (simp add: set_order_ok_def)

theorem loop_iteration_witness:
  "\<not> is_solved (read_grid (store_of easy_puzzle) 0) \<and> 0 < max_iterations \<and>
   in_range (read_grid (store_of easy_puzzle) 0) \<and> set_order_ok remdups \<and>
   (\<exists>cands. init_candidates (read_grid (store_of easy_puzzle) 0) = Inr cands \<and>
     map fst cands = [(6, 8), (7, 7), (8, 6)] \<and>
     map_of cands (0, 0) = None \<and> map_of cands (8, 6) = Some {1} \<and>
     loop remdups (store_of easy_puzzle) 0 [] 0 0 =
       (case first_effective (technique_effects remdups (read_grid (store_of easy_puzzle) 0) cands) of
          Some tag \<Rightarrow>
            loop remdups (after_technique remdups (store_of easy_puzzle) 0 cands tag) 0
              ([] @ [tag]) (max 0 (spec_weight tag)) (0 + 1)
        | None \<Rightarrow>
            (Inr ([] @ [''requires_expert_technique''], max 0 200, 0 + 1, Stuck),
             store_of easy_puzzle)))"
proof -
  let ?g = "read_grid (store_of easy_puzzle) 0"
  have u: "\<not> is_solved ?g"
    unfolding read_grid_store_of by (simp add: is_solved_def easy_puzzle_def)
  have b: "0 < max_iterations" by (simp add: max_iterations_def)
  have s: "in_range ?g"
    unfolding read_grid_store_of by (rule in_range_easy_puzzle)
  from loop_iteration [OF u b s set_order_ok_remdups, of "[]" 0] obtain cands
    where c: "init_candidates ?g = Inr cands"
      and k: "map fst cands = filter (\<lambda>(r, c). ?g ! r ! c = 0) all_cells"
      and m: "\<And>r c. map_of cands (r, c) =
        (if r < 9 \<and> c < 9 \<and> ?g ! r ! c = 0
         then Some ({1..9} - ({?g ! r ! j |j. j < 9} \<union> {?g ! i ! c |i. i < 9} \<union>
                      {?g ! i ! j |i j. i div 3 = r div 3 \<and> j div 3 = c div 3}))
         else None)"
      and l: "loop remdups (store_of easy_puzzle) 0 [] 0 0 =
       (case first_effective (technique_effects remdups ?g cands) of
          Some tag \<Rightarrow>
            loop remdups (after_technique remdups (store_of easy_puzzle) 0 cands tag) 0
              ([] @ [tag]) (max 0 (spec_weight tag)) (0 + 1)
        | None \<Rightarrow>
            (Inr ([] @ [''requires_expert_technique''], max 0 200, 0 + 1, Stuck),
             store_of easy_puzzle))"
    by blast
  have "filter (\<lambda>(r, c). easy_puzzle ! r ! c = 0) all_cells = [(6, 8), (7, 7), (8, 6)]"
    by code_simp
  then have k': "map fst cands = [(6, 8), (7, 7), (8, 6)]"
    using k unfolding read_grid_store_of by simp
  have z: "easy_puzzle ! 0 ! 0 = 5" by (simp add: easy_puzzle_def)
  have e: "(8::nat) < 9 \<and> (6::nat) < 9 \<and> easy_puzzle ! 8 ! 6 = 0" by (simp add: easy_puzzle_def)
  have m0: "map_of cands (0, 0) = None" unfolding m read_grid_store_of z by simp
  have m1: "map_of cands (8, 6) = Some {1}"
    unfolding m read_grid_store_of if_P [OF e] seen_values_range [symmetric] easy_puzzle_seen ..
  show ?thesis
    by (intro conjI exI [of _ cands]) (rule u b s set_order_ok_remdups c k' m0 m1 l)+
qed

section \<open>Malformed input\<close>

lemma cell_at_fails_init_loop:
  "(r, c) \<in> set ps \<Longrightarrow> cell_at g r c = Inl e \<Longrightarrow> init_loop g ps acc = Inl IndexError"
proof (induction ps arbitrary: acc)
  case Nil
  then show ?case by simp
next
  case (Cons p ps)
  obtain r' c' where p: "p = (r', c')" by (cases p) auto
  have err: "\<And>x :: error. x = IndexError" by (rule error.exhaust) 
  show ?case
  proof (cases "cell_at g r' c'")
    case (Inl e')
    then show ?thesis using err [of e'] by (simp add: p)
  next
    case (Inr v)
    then have "(r, c) \<in> set ps" using Cons.prems p by auto
    note ih = Cons.IH [OF this Cons.prems(2)]
    show ?thesis
    proof (cases "get_candidates g r' c'")
      case (Inl e')
      then show ?thesis using Inr ih err [of e'] by (simp add: p)
    next
      case gc: (Inr s)
      then show ?thesis using Inr ih by (simp add: p)
    qed
  qed
qed

lemma init_candidates_not_in_range:
  assumes "\<not> in_range g"
  shows "init_candidates g = Inl IndexError"
proof -
  from assms consider "length g < 9" | r where "r < 9" "r < length g" "length (g ! r) < 9"
    unfolding in_range_def by (metis not_le less_le_trans linorder_not_less)
  then obtain r c where rc: "r < 9" "c < 9" "cell_at g r c = Inl IndexError"
  proof cases
    case 1
    then have "cell_at g (length g) 0 = Inl IndexError" by (simp add: cell_at_def)
    with 1 that [of "length g" 0] show ?thesis by simp
  next
    case 2
    then have "cell_at g r (length (g ! r)) = Inl IndexError" by (simp add: cell_at_def)
    with 2 that [of r "length (g ! r)"] show ?thesis by simp
  qed
  then have "(r, c) \<in> set all_cells" by (simp add: all_cells_iff)
  then show ?thesis unfolding init_candidates_def using rc(3) by (rule cell_at_fails_init_loop)
qed

lemma iteration_body_in_range:
  assumes shape: "in_range (read_grid h wb)" and ok: "set_order_ok set_order"
  shows "(\<exists>tag. fst (iteration_body set_order h wb) = Applied tag) \<or>
         iteration_body set_order h wb = (NotApplied, h)"
    and "in_range (read_grid (snd (iteration_body set_order h wb)) wb)"
proof -
  let ?g = "read_grid h wb"
  let ?c = "candidates_of ?g"
  let ?ns = "find_naked_singles ?c" and ?hs = "find_hidden_singles set_order ?g ?c"
  have ic: "init_candidates ?g = Inr ?c" by (rule init_candidates_in_range [OF shape])
  have ns: "fst (assign_all h wb ?ns) = None \<and> in_range (read_grid (snd (assign_all h wb ?ns)) wb)"
    using assign_all_in_range [OF shape, of ?ns] naked_singles_lt [of _ _ _ ?g] by blast
  have hs: "fst (assign_all h wb ?hs) = None \<and> in_range (read_grid (snd (assign_all h wb ?hs)) wb)"
    using assign_all_in_range [OF shape, of ?hs] hidden_singles_lt [OF ok, of _ _ _ ?g ?c]
    by blast
  have a: "\<And>tag fs. fst (assign_all h wb fs) = None \<Longrightarrow>
      assigned tag (assign_all h wb fs) = (Applied tag, snd (assign_all h wb fs))"
    by (auto simp: assigned_def split: prod.splits)
  consider "?ns \<noteq> []" | "?ns = []" "?hs \<noteq> []" | "?ns = []" "?hs = []" by blast
  then have "((\<exists>tag. fst (iteration_body set_order h wb) = Applied tag) \<or>
         iteration_body set_order h wb = (NotApplied, h)) \<and>
         in_range (read_grid (snd (iteration_body set_order h wb)) wb)"
  proof cases
    case 1
    then show ?thesis using ic ns a by (simp add: iteration_body_def Let_def)
  next
    case 2
    then show ?thesis using ic hs a by (simp add: iteration_body_def Let_def)
  next
    case 3
    then show ?thesis using ic shape
      by (cases "eliminations ?c") (simp_all add: iteration_body_def Let_def)
  qed
  then show "(\<exists>tag. fst (iteration_body set_order h wb) = Applied tag) \<or>
         iteration_body set_order h wb = (NotApplied, h)"
    and "in_range (read_grid (snd (iteration_body set_order h wb)) wb)" by simp_all
qed

lemma loop_total:
  "set_order_ok set_order \<Longrightarrow> in_range (read_grid h wb) \<Longrightarrow>
     \<exists>res. fst (loop set_order h wb techniques_used max_score iteration) = Inr res"
proof (induction set_order h wb techniques_used max_score iteration rule: loop.induct)
  case (1 set_order h wb used m it)
  show ?case
  proof (cases "\<not> is_solved (read_grid h wb) \<and> it < max_iterations")
    case False
    then show ?thesis by (subst loop.simps) auto
  next
    case True
    obtain st h1 where b: "iteration_body set_order h wb = (st, h1)"
      by (cases "iteration_body set_order h wb") auto
    note ib = iteration_body_in_range [OF "1.prems"(2) "1.prems"(1)]
    from ib(1) b consider tag where "st = Applied tag" | "st = NotApplied" by auto
    then show ?thesis
    proof cases
      case 1
      have "in_range (read_grid h1 wb)" using ib(2) b by simp
      from "1.IH" [OF True b [symmetric] 1 "1.prems"(1) this] show ?thesis
        using True b 1 by (subst loop.simps) simp
    next
      case 2
      then show ?thesis using True b by (subst loop.simps) simp
    qed
  qed
qed

lemma loop_raises:
  assumes "\<not> in_range (read_grid h wb)" "\<not> is_solved (read_grid h wb)"
    "iteration < max_iterations"
  shows "loop set_order h wb techniques_used max_score iteration = (Inl IndexError, h)"
proof -
  have "iteration_body set_order h wb = (Raised IndexError, h)"
    using init_candidates_not_in_range [OF assms(1)] by (simp add: iteration_body_def Let_def)
  then show ?thesis using assms(2,3) by (subst loop.simps) simp
qed

lemma fives_one_empty_rated:
  "fst (rate_puzzle remdups (store_of fives_one_empty) 0) = Inr (''Easy'', 15, [''hidden_single''])"
  by code_simp

lemma all_tens_rated: "fst (rate_puzzle remdups (store_of all_tens) 0) = Inr (''Easy'', 0, [])"
  by code_simp

lemma no_rows_rated: "fst (rate_puzzle remdups (store_of []) 0) = Inr (''Easy'', 0, [])"
  by code_simp

lemma malformed_examples:
  "\<not> spec_valid_grid fives_one_empty" "\<not> spec_valid_grid all_tens" "\<not> spec_valid_grid []"
  by code_simp+

text \<open>
  Claim C2, as stated, fails: \<^verbatim>\<open>rate_puzzle\<close> returns a rating for a grid that repeats a
  digit in every row, column and box, for a grid of tens, and for a grid with no rows.
\<close>

theorem rate_puzzle_rates_malformed:
  "\<not> spec_valid_grid fives_one_empty \<and>
   fst (rate_puzzle remdups (store_of fives_one_empty) 0) = Inr (''Easy'', 15, [''hidden_single'']) \<and>
   \<not> spec_valid_grid all_tens \<and>
   fst (rate_puzzle remdups (store_of all_tens) 0) = Inr (''Easy'', 0, []) \<and>
   \<not> spec_valid_grid [] \<and>
   fst (rate_puzzle remdups (store_of []) 0) = Inr (''Easy'', 0, [])"
  using fives_one_empty_rated all_tens_rated no_rows_rated malformed_examples by simp

text \<open>
  Claim C2, amended. \<^verbatim>\<open>rate_puzzle\<close> validates nothing and has no \<^verbatim>\<open>InvalidBoard\<close> error.
  A grid with no empty cell is rated \<^verbatim>\<open>('Easy', 0, [])\<close>; a grid whose first nine rows
  have nine cells or more is rated, whatever its digits; a grid with an empty cell that
  is too small for the subscripts of the techniques raises \<^verbatim>\<open>IndexError\<close>.
\<close>

theorem rate_puzzle_no_validation:
  assumes v: "valid_board h board" and ok: "set_order_ok set_order"
  shows "(is_solved (read_grid h board) \<longrightarrow>
            fst (rate_puzzle set_order h board) = Inr (''Easy'', 0, [])) \<and>
         (in_range (read_grid h board) \<longrightarrow>
            (\<exists>rating. fst (rate_puzzle set_order h board) = Inr rating)) \<and>
         (\<not> in_range (read_grid h board) \<and> \<not> is_solved (read_grid h board) \<longrightarrow>
            fst (rate_puzzle set_order h board) = Inl IndexError)"
proof -
  obtain wb h1 where dc: "deepcopy h board = (wb, h1)" by (cases "deepcopy h board") auto
  have g: "read_grid h1 wb = read_grid h board" by (rule deepcopy_props(7) [OF v dc])
  have r: "rate_puzzle set_order h board =
      (case loop set_order h1 wb [] 0 0 of
         (Inl e, h') \<Rightarrow> (Inl e, h')
       | (Inr (techniques_used, max_score, iteration, ex), h') \<Rightarrow>
           (Inr (classify max_score, max_score, techniques_used), h'))"
    by (simp add: rate_puzzle_def solve_loop_def dc)
  have 1: "fst (rate_puzzle set_order h board) = Inr (''Easy'', 0, [])"
    if "is_solved (read_grid h board)"
    using that unfolding r by (simp add: loop_solved g classify_def)
  have 2: "\<exists>rating. fst (rate_puzzle set_order h board) = Inr rating"
    if "in_range (read_grid h board)"
  proof -
    from loop_total [OF ok, of h1 wb "[]" 0 0] that g
    obtain res where "fst (loop set_order h1 wb [] 0 0) = Inr res" by auto
    then show ?thesis unfolding r
      by (cases "loop set_order h1 wb [] 0 0"; cases res) auto
  qed
  have 3: "fst (rate_puzzle set_order h board) = Inl IndexError"
    if "\<not> in_range (read_grid h board) \<and> \<not> is_solved (read_grid h board)"
  proof -
    have "loop set_order h1 wb [] 0 0 = (Inl IndexError, h1)"
      using that by (intro loop_raises) (simp_all add: g max_iterations_def)
    then show ?thesis unfolding r by simp
  qed
  from 1 2 3 show ?thesis by blast
qed

theorem rate_puzzle_no_validation_witness:
  "valid_board (store_of fives_one_empty) 0 \<and> valid_board (store_of one_cell) 0 \<and>
   set_order_ok remdups \<and>
   in_range (read_grid (store_of fives_one_empty) 0) \<and>
   (\<exists>rating. fst (rate_puzzle remdups (store_of fives_one_empty) 0) = Inr rating) \<and>
   \<not> in_range (read_grid (store_of one_cell) 0) \<and>
   \<not> is_solved (read_grid (store_of one_cell) 0) \<and>
   fst (rate_puzzle remdups (store_of one_cell) 0) = Inl IndexError"
proof -
  have a: "in_range (read_grid (store_of fives_one_empty) 0)"
    unfolding read_grid_store_of by (simp add: in_range_def all_less_9 fives_one_empty_def)
  have b: "\<not> in_range (read_grid (store_of one_cell) 0)"
    "\<not> is_solved (read_grid (store_of one_cell) 0)"
    unfolding read_grid_store_of by (simp_all add: in_range_def is_solved_def one_cell_def)
  show ?thesis
    using rate_puzzle_no_validation [OF valid_store_of set_order_ok_remdups, of fives_one_empty]
      rate_puzzle_no_validation [OF valid_store_of set_order_ok_remdups, of one_cell]
      a b valid_store_of set_order_ok_remdups
    by blast
qed

section \<open>X-Wing\<close>

lemma two_places:
  assumes "{i. i < 9 \<and> P i} = {x1, x2}" "x1 < (x2::nat)"
  shows "filter P [0..<9] = [x1, x2]"
proof (rule sorted_distinct_set_unique)
  show "sorted (filter P [0..<9])" by (rule sorted_wrt_filter) simp
  show "distinct (filter P [0..<9])" by simp
  show "sorted [x1, x2]" "distinct [x1, x2]" using assms(2) by simp_all
  show "set (filter P [0..<9]) = set [x1, x2]" using assms(1) by auto
qed


lemma upt_split: "i \<le> j \<Longrightarrow> j \<le> k \<Longrightarrow> [i..<k] = [i..<j] @ [j..<k]"
  using upt_add_eq_append [of i j "k - j"] by simp

lemma concat_map_upt_split:
  assumes "l1 < l2" "l2 < (9::nat)"
  shows "concat (map f [0..<9]) =
     concat (map f [0..<l1]) @ f l1 @ concat (map f [Suc l1..<l2]) @ f l2 @
     concat (map f [Suc l2..<9])"
proof -
  have "[0..<9] = [0..<l1] @ [l1..<9]" using assms by (intro upt_split) simp_all
  also have "[l1..<9] = l1 # [Suc l1..<9]" using assms by (intro upt_conv_Cons) simp
  also have "[Suc l1..<9] = [Suc l1..<l2] @ [l2..<9]" using assms by (intro upt_split) simp_all
  also have "[l2..<9] = l2 # [Suc l2..<9]" using assms by (intro upt_conv_Cons) simp
  finally show ?thesis by simp
qed

lemma concat_mapI: "y \<in> set ys \<Longrightarrow> x \<in> set (F y) \<Longrightarrow> x \<in> set (concat (map F ys))"
  by auto

lemma x_wing_results_member:
  "(pt, (l1, l2), x, num) \<in> set (x_wing_results pt num (A @ [(l1, x)] @ B @ [(l2, x)] @ C))"
proof -
  let ?lc = "A @ [(l1, x)] @ B @ [(l2, x)] @ C"
  let ?i = "length A" and ?j = "length (A @ [(l1, x)] @ B)"
  have i: "?lc ! ?i = (l1, x)" by simp
  have "?lc = (A @ [(l1, x)] @ B) @ (l2, x) # C" by simp
  then have j: "?lc ! ?j = (l2, x)" by (simp only: nth_append_length)
  have "0 \<le> ?i \<and> ?i < length ?lc" by simp
  then have mi: "?i \<in> set [0..<length ?lc]" by (simp only: set_upt atLeastLessThan_iff)
  have "?i + 1 \<le> ?j \<and> ?j < length ?lc" by simp
  then have mj: "?j \<in> set [?i + 1..<length ?lc]" by (simp only: set_upt atLeastLessThan_iff)
  have "(pt, (l1, l2), x, num) \<in> set (case ?lc ! ?i of (line1, cross1) \<Rightarrow>
         case ?lc ! ?j of (line2, cross2) \<Rightarrow>
           if cross1 = cross2 then [(pt, (line1, line2), cross1, num)] else [])"
    unfolding i j by simp
  then show ?thesis
    unfolding x_wing_results_def
    by (intro concat_mapI [OF mi] concat_mapI [OF mj])
qed

lemma two_place_lines_member:
  assumes "l1 < l2" "l2 < 9"
    and "filter (\<lambda>i. is_candidate cands (cell_of l1 i) num) [0..<9] = [x1, x2]"
    and "filter (\<lambda>i. is_candidate cands (cell_of l2 i) num) [0..<9] = [x1, x2]"
  shows "\<exists>A B C. two_place_lines cands cell_of num =
           A @ [(l1, x1, x2)] @ B @ [(l2, x1, x2)] @ C"
proof -
  let ?f = "\<lambda>line.
        (let positions = filter (\<lambda>i. is_candidate cands (cell_of line i) num) [0..<9] in
         if length positions = 2 then [(line, positions ! 0, positions ! 1)] else [])"
  have 1: "?f l1 = [(l1, x1, x2)]" and 2: "?f l2 = [(l2, x1, x2)]"
    unfolding Let_def assms(3,4) by simp_all
  have "two_place_lines cands cell_of num = concat (map ?f [0..<9])"
    by (simp only: two_place_lines_def)
  also have "\<dots> = concat (map ?f [0..<l1]) @ ?f l1 @ concat (map ?f [Suc l1..<l2]) @ ?f l2 @
     concat (map ?f [Suc l2..<9])"
    by (rule concat_map_upt_split [OF assms(1,2)])
  finally show ?thesis unfolding 1 2 by blast
qed

lemma x_wing_found:
  assumes "l1 < l2" "l2 < 9"
    and "filter (\<lambda>i. is_candidate cands (cell_of l1 i) num) [0..<9] = [x1, x2]"
    and "filter (\<lambda>i. is_candidate cands (cell_of l2 i) num) [0..<9] = [x1, x2]"
  shows "(pt, (l1, l2), (x1, x2), num) \<in>
           set (x_wing_results pt num (two_place_lines cands cell_of num))"
proof -
  from two_place_lines_member [OF assms] obtain A B C
    where "two_place_lines cands cell_of num = A @ [(l1, x1, x2)] @ B @ [(l2, x1, x2)] @ C"
    by blast
  then show ?thesis using x_wing_results_member [of pt l1 l2 "(x1, x2)" num A B C] by simp
qed

lemma digit_upto: "1 \<le> D \<Longrightarrow> D \<le> 9 \<Longrightarrow> D \<in> set [1..9]"
  by simp

lemma x_wing_targets_rows:
  "((r, c), d) \<in> set (x_wing_targets (Rows, (l1, l2), (x1, x2), D)) \<longleftrightarrow>
     d = D \<and> r < 9 \<and> r \<noteq> l1 \<and> r \<noteq> l2 \<and> (c = x1 \<or> c = x2)"
  unfolding x_wing_targets_def by auto

lemma x_wing_targets_cols:
  "((r, c), d) \<in> set (x_wing_targets (Cols, (l1, l2), (x1, x2), D)) \<longleftrightarrow>
     d = D \<and> c < 9 \<and> c \<noteq> l1 \<and> c \<noteq> l2 \<and> (r = x1 \<or> r = x2)"
  unfolding x_wing_targets_def by auto

lemma less_9_filter: "{i. i < 9 \<and> P i} = set (filter P [0..<9])"
  by auto

section \<open>XY-Wing\<close>

lemma can_see_shares: "can_see r1 c1 r2 c2 = shares_unit (r1, c1) (r2, c2)"
  by (auto simp: can_see_def shares_unit_def)

lemma card_2_sorted:
  assumes "card (s :: int set) = 2"
  shows "\<exists>a b. a < b \<and> sorted_list_of_set s = [a, b] \<and> s = {a, b}"
proof -
  have fin: "finite s" using assms by (metis card.infinite zero_neq_numeral)
  let ?l = "sorted_list_of_set s"
  have "length ?l = 2" using assms fin by simp
  then obtain a b where l: "?l = [a, b]"
    by (metis (no_types, opaque_lifting) One_nat_def Suc_1 length_0_conv length_Suc_conv)
  have "sorted ?l" "distinct ?l" "set ?l = s" using fin by simp_all
  then have "a < b" "s = {a, b}" unfolding l by auto
  with l show ?thesis by blast
qed

lemma bi_value_entry:
  assumes "(r, c, cs) \<in> set (xy_bi_value_cells cands)"
  shows "is_bi_value cands (r, c) \<and>
         (\<exists>a b. a < b \<and> cs = [a, b] \<and> map_of cands (r, c) = Some {a, b})"
proof -
  from assms have bv: "is_bi_value cands (r, c)"
    and cs: "cs = sorted_list_of_set (the (map_of cands (r, c)))"
    unfolding xy_bi_value_cells_def by auto
  from bv obtain s where s: "map_of cands (r, c) = Some s" "card s = 2"
    unfolding is_bi_value_def by (auto split: option.splits)
  from card_2_sorted [OF s(2)] cs s(1) bv show ?thesis by auto
qed

lemma xy_wing_targets_iff:
  "((r, c), d) \<in> set (xy_wing_targets (pivot, wing1, wing2, Z)) \<longleftrightarrow>
     d = Z \<and> r < 9 \<and> c < 9 \<and> (r, c) \<notin> {pivot, wing1, wing2} \<and>
     shares_unit (r, c) wing1 \<and> shares_unit (r, c) wing2"
proof
  assume "((r, c), d) \<in> set (xy_wing_targets (pivot, wing1, wing2, Z))"
  then show "d = Z \<and> r < 9 \<and> c < 9 \<and> (r, c) \<notin> {pivot, wing1, wing2} \<and>
     shares_unit (r, c) wing1 \<and> shares_unit (r, c) wing2"
    unfolding xy_wing_targets_def
    by (auto simp: all_cells_iff can_see_shares split: if_splits)
next
  assume h: "d = Z \<and> r < 9 \<and> c < 9 \<and> (r, c) \<notin> {pivot, wing1, wing2} \<and>
     shares_unit (r, c) wing1 \<and> shares_unit (r, c) wing2"
  have m: "(r, c) \<in> set all_cells" using h by (simp add: all_cells_iff)
  have t: "xy_wing_targets (pivot, wing1, wing2, Z) =
      concat (map (\<lambda>(row, col).
           if (row, col) \<in> set [pivot, wing1, wing2] then []
           else if can_see row col (fst wing1) (snd wing1) \<and> can_see row col (fst wing2) (snd wing2)
           then [((row, col), Z)] else []) all_cells)"
    by (simp add: xy_wing_targets_def)
  have "((r, c), d) \<in> set (case (r, c) of (row, col) \<Rightarrow>
           if (row, col) \<in> set [pivot, wing1, wing2] then []
           else if can_see row col (fst wing1) (snd wing1) \<and> can_see row col (fst wing2) (snd wing2)
           then [((row, col), Z)] else [])"
    using h by (simp add: can_see_shares)
  then show "((r, c), d) \<in> set (xy_wing_targets (pivot, wing1, wing2, Z))"
    unfolding t by (rule concat_mapI [OF m])
qed

lemma apply_xy_wing_one:
  "map_of (fst (apply_xy_wing cands [w])) k =
     map_option (\<lambda>s. s - {d. (k, d) \<in> set (xy_wing_targets w)}) (map_of cands k)"
  by (simp add: apply_xy_wing_def map_of_fold_eliminate)

lemma find_xy_wing_member:
  assumes "(pivot, wing1, wing2, Z) \<in> set (find_xy_wing cands)"
  shows "\<exists>pcs w1cs w2cs.
     (fst pivot, snd pivot, pcs) \<in> set (xy_bi_value_cells cands) \<and>
     (fst wing1, snd wing1, w1cs) \<in> set (xy_bi_value_cells cands) \<and>
     (fst wing2, snd wing2, w2cs) \<in> set (xy_bi_value_cells cands) \<and>
     wing1 \<noteq> pivot \<and> wing2 \<noteq> pivot \<and> wing2 \<noteq> wing1 \<and>
     can_see (fst pivot) (snd pivot) (fst wing1) (snd wing1) \<and>
     can_see (fst pivot) (snd pivot) (fst wing2) (snd wing2) \<and>
     pcs ! 0 \<in> set w1cs \<and> Z = hd (filter (\<lambda>c. c \<noteq> pcs ! 0) w1cs) \<and>
     set w2cs = {pcs ! 1, Z}"
  using assms unfolding find_xy_wing_def Let_def
  by (fastforce split: if_splits)

text \<open>
  Claim C4. In every finding of \<^verbatim>\<open>find_xy_wing\<close> the pivot and the two wings are three
  distinct bi-value cells; wing 1 shares a row, a column or a box with the pivot and so
  does wing 2; the pivot holds \<open>{X, Y}\<close>, wing 1 holds \<open>{X, Z}\<close> with \<open>Z\<close> neither \<open>X\<close>
  nor \<open>Y\<close>, and wing 2 holds exactly \<open>{Y, Z}\<close>. \<^verbatim>\<open>apply_xy_wing\<close>, given the finding,
  removes \<open>Z\<close> from every cell other than these three that shares a unit with both
  wings, and changes no other candidate set.
\<close>

theorem xy_wing_sound:
  assumes f: "(pivot, wing1, wing2, Z) \<in> set (find_xy_wing cands)"
  shows "pivot \<noteq> wing1 \<and> pivot \<noteq> wing2 \<and> wing1 \<noteq> wing2 \<and>
         is_bi_value cands pivot \<and> is_bi_value cands wing1 \<and> is_bi_value cands wing2 \<and>
         shares_unit pivot wing1 \<and> shares_unit pivot wing2 \<and>
         (\<exists>X Y. X \<noteq> Y \<and> Z \<noteq> X \<and> Z \<noteq> Y \<and> map_of cands pivot = Some {X, Y} \<and>
                map_of cands wing1 = Some {X, Z} \<and> map_of cands wing2 = Some {Y, Z}) \<and>
         (\<forall>r c. map_of (fst (apply_xy_wing cands [(pivot, wing1, wing2, Z)])) (r, c) =
            (if r < 9 \<and> c < 9 \<and> (r, c) \<notin> {pivot, wing1, wing2} \<and>
                shares_unit (r, c) wing1 \<and> shares_unit (r, c) wing2
             then map_option (\<lambda>s. s - {Z}) (map_of cands (r, c))
             else map_of cands (r, c)))"
proof -
  from find_xy_wing_member [OF f] obtain pcs w1cs w2cs where
    p: "(fst pivot, snd pivot, pcs) \<in> set (xy_bi_value_cells cands)"
    and w1: "(fst wing1, snd wing1, w1cs) \<in> set (xy_bi_value_cells cands)"
    and w2: "(fst wing2, snd wing2, w2cs) \<in> set (xy_bi_value_cells cands)"
    and ne: "wing1 \<noteq> pivot" "wing2 \<noteq> pivot" "wing2 \<noteq> wing1"
    and see: "can_see (fst pivot) (snd pivot) (fst wing1) (snd wing1)"
      "can_see (fst pivot) (snd pivot) (fst wing2) (snd wing2)"
    and x: "pcs ! 0 \<in> set w1cs" and z: "Z = hd (filter (\<lambda>c. c \<noteq> pcs ! 0) w1cs)"
    and yz: "set w2cs = {pcs ! 1, Z}"
    by blast
  from bi_value_entry [OF p] obtain X Y where
    bp: "is_bi_value cands pivot" and xy: "X < Y" "pcs = [X, Y]"
    and mp: "map_of cands pivot = Some {X, Y}" by auto
  from bi_value_entry [OF w1] obtain a b where
    b1: "is_bi_value cands wing1" and ab: "a < b" "w1cs = [a, b]"
    and m1: "map_of cands wing1 = Some {a, b}" by auto
  from bi_value_entry [OF w2] obtain a2 b2 where
    b2: "is_bi_value cands wing2" and ab2: "a2 < b2" "w2cs = [a2, b2]"
    and m2: "map_of cands wing2 = Some {a2, b2}" by auto
  have X: "pcs ! 0 = X" and Y: "pcs ! 1 = Y" using xy(2) by simp_all
  have zx: "Z \<noteq> X \<and> {a, b} = {X, Z}"
    using x z ab unfolding X by auto
  have s2: "{a2, b2} = {Y, Z}" using yz ab2(2) unfolding Y by simp
  have zy: "Z \<noteq> Y" using s2 ab2(1) by auto
  have vals: "\<exists>X Y. X \<noteq> Y \<and> Z \<noteq> X \<and> Z \<noteq> Y \<and> map_of cands pivot = Some {X, Y} \<and>
                map_of cands wing1 = Some {X, Z} \<and> map_of cands wing2 = Some {Y, Z}"
    using xy(1) zx zy mp m1 m2 s2 by (intro exI [of _ X] exI [of _ Y]) simp
  have elim: "map_of (fst (apply_xy_wing cands [(pivot, wing1, wing2, Z)])) (r, c) =
            (if r < 9 \<and> c < 9 \<and> (r, c) \<notin> {pivot, wing1, wing2} \<and>
                shares_unit (r, c) wing1 \<and> shares_unit (r, c) wing2
             then map_option (\<lambda>s. s - {Z}) (map_of cands (r, c))
             else map_of cands (r, c))" for r c
  proof -
    have "{d. ((r, c), d) \<in> set (xy_wing_targets (pivot, wing1, wing2, Z))} =
        (if r < 9 \<and> c < 9 \<and> (r, c) \<notin> {pivot, wing1, wing2} \<and>
                shares_unit (r, c) wing1 \<and> shares_unit (r, c) wing2 then {Z} else {})"
      unfolding xy_wing_targets_iff by auto
    then show ?thesis unfolding apply_xy_wing_one by (auto simp: option.map_ident)
  qed
  have sh: "shares_unit pivot wing1" "shares_unit pivot wing2"
    using see by (simp_all add: can_see_shares)
  show ?thesis using ne bp b1 b2 sh vals elim by (intro conjI allI) auto
qed

lemma xy_wing_example_found: "((0, 0), (0, 4), (3, 0), 3) \<in> set (find_xy_wing xy_wing_example)"
  by code_simp

theorem xy_wing_sound_witness:
  "((0, 0), (0, 4), (3, 0), 3) \<in> set (find_xy_wing xy_wing_example) \<and>
   is_bi_value xy_wing_example (0, 0) \<and> shares_unit (0, 0) (0, 4) \<and> shares_unit (0, 0) (3, 0) \<and>
   map_of (fst (apply_xy_wing xy_wing_example [((0, 0), (0, 4), (3, 0), 3)])) (3, 4) = Some {5} \<and>
   map_of (fst (apply_xy_wing xy_wing_example [((0, 0), (0, 4), (3, 0), 3)])) (3, 0) = Some {2, 3}"
proof -
  have m: "map_of xy_wing_example (3, 4) = Some {3, 5}" "map_of xy_wing_example (3, 0) = Some {2, 3}"
    by (simp_all add: xy_wing_example_def)
  have s: "shares_unit (3, 4) (0, 4)" "shares_unit (3, 4) (3, 0)"
    by (simp_all add: shares_unit_def)
  have "{3, 5} - {3} = {5::int}" by auto
  then show ?thesis
    using xy_wing_sound [OF xy_wing_example_found] xy_wing_example_found m s by simp
qed

section \<open>Determinism\<close>

lemma same_aliasing_refl: "same_aliasing xs xs"
  by (simp add: same_aliasing_def)

lemma same_aliasing_sym: "same_aliasing xs ys \<Longrightarrow> same_aliasing ys xs"
  by (simp add: same_aliasing_def)

lemma same_aliasing_trans: "same_aliasing xs ys \<Longrightarrow> same_aliasing ys zs \<Longrightarrow> same_aliasing xs zs"
  by (simp add: same_aliasing_def)

lemma similar_sym: "similar h1 b1 h2 b2 \<Longrightarrow> similar h2 b2 h1 b1"
  by (simp add: similar_def same_aliasing_sym)

lemma similar_trans:
  "similar h1 b1 h2 b2 \<Longrightarrow> similar h2 b2 h3 b3 \<Longrightarrow> similar h1 b1 h3 b3"
  unfolding similar_def using same_aliasing_trans by auto

lemma read_grid_after_write:
  assumes v: "rows_valid h b" and r: "r < length (row_addrs h b)"
  shows "read_grid (h\<lparr>row_lists := (row_lists h)[row_addrs h b ! r :=
            (row_lists h ! (row_addrs h b ! r))[c := n]]\<rparr>) b =
         map (\<lambda>i. if row_addrs h b ! i = row_addrs h b ! r
                   then (read_grid h b ! r)[c := n] else read_grid h b ! i)
           [0..<length (row_addrs h b)]"
proof (rule nth_equalityI)
  let ?as = "row_addrs h b"
  let ?h' = "h\<lparr>row_lists := (row_lists h)[?as ! r := (row_lists h ! (?as ! r))[c := n]]\<rparr>"
  have ra: "row_addrs ?h' b = ?as" by (simp add: row_addrs_def)
  show "length (read_grid ?h' b) = length (map (\<lambda>i. if ?as ! i = ?as ! r
                   then (read_grid h b ! r)[c := n] else read_grid h b ! i) [0..<length ?as])"
    by (simp add: read_grid_def ra)
  fix i assume "i < length (read_grid ?h' b)"
  then have i: "i < length ?as" by (simp add: read_grid_def ra)
  have ar: "?as ! r < length (row_lists h)" using v r by (simp add: rows_valid_def)
  show "read_grid ?h' b ! i = map (\<lambda>i. if ?as ! i = ?as ! r
                   then (read_grid h b ! r)[c := n] else read_grid h b ! i) [0..<length ?as] ! i"
    using i r ar by (simp add: read_grid_def ra nth_list_update)
qed

lemma write_cell_similar:
  assumes s: "similar h1 b1 h2 b2"
  shows "(\<exists>e. write_cell h1 b1 r c n = Inl e \<and> write_cell h2 b2 r c n = Inl e) \<or>
         (\<exists>h1' h2'. write_cell h1 b1 r c n = Inr h1' \<and> write_cell h2 b2 r c n = Inr h2' \<and>
            similar h1' b1 h2' b2)"
proof -
  let ?a1 = "row_addrs h1 b1" and ?a2 = "row_addrs h2 b2"
  from s have g: "read_grid h1 b1 = read_grid h2 b2"
    and al: "same_aliasing ?a1 ?a2" and v1: "rows_valid h1 b1" and v2: "rows_valid h2 b2"
    by (simp_all add: similar_def)
  have len: "length ?a1 = length ?a2" using al by (simp add: same_aliasing_def)
  show ?thesis
  proof (cases "r < length ?a1")
    case False
    then show ?thesis using len by (simp add: write_cell_def)
  next
    case r1: True
    then have r2: "r < length ?a2" using len by simp
    have rows: "row_lists h1 ! (?a1 ! r) = row_lists h2 ! (?a2 ! r)"
      using arg_cong [OF g, of "\<lambda>g. g ! r"] r1 r2 by (simp add: read_grid_def)
    show ?thesis
    proof (cases "c < length (row_lists h1 ! (?a1 ! r))")
      case False
      then show ?thesis using r1 r2 rows by (simp add: write_cell_def Let_def)
    next
      case True
      let ?h1 = "h1\<lparr>row_lists := (row_lists h1)[?a1 ! r := (row_lists h1 ! (?a1 ! r))[c := n]]\<rparr>"
      let ?h2 = "h2\<lparr>row_lists := (row_lists h2)[?a2 ! r := (row_lists h2 ! (?a2 ! r))[c := n]]\<rparr>"
      have w1: "write_cell h1 b1 r c n = Inr ?h1" using True r1 by (simp add: write_cell_def Let_def)
      have w2: "write_cell h2 b2 r c n = Inr ?h2"
        using True r2 rows by (simp add: write_cell_def Let_def)
      have ra: "row_addrs ?h1 b1 = ?a1" "row_addrs ?h2 b2 = ?a2" by (simp_all add: row_addrs_def)
      have eq: "\<And>i. i < length ?a1 \<Longrightarrow> (?a1 ! i = ?a1 ! r) = (?a2 ! i = ?a2 ! r)"
        using al r1 by (simp add: same_aliasing_def)
      have "read_grid ?h1 b1 = read_grid ?h2 b2"
        unfolding read_grid_after_write [OF v1 r1] read_grid_after_write [OF v2 r2]
        using eq len g by (intro nth_equalityI) simp_all
      moreover have "rows_valid ?h1 b1" "rows_valid ?h2 b2"
        using v1 v2 unfolding rows_valid_def ra by simp_all
      ultimately have "similar ?h1 b1 ?h2 b2" unfolding similar_def ra using al by simp
      with w1 w2 show ?thesis by blast
    qed
  qed
qed

lemma assign_all_similar:
  "similar h1 b1 h2 b2 \<Longrightarrow>
     fst (assign_all h1 b1 fs) = fst (assign_all h2 b2 fs) \<and>
     similar (snd (assign_all h1 b1 fs)) b1 (snd (assign_all h2 b2 fs)) b2"
proof (induction fs arbitrary: h1 h2)
  case Nil
  then show ?case by simp
next
  case (Cons f fs)
  obtain r c n where f: "f = (r, c, n)" by (cases f) auto
  from write_cell_similar [OF Cons.prems, of r c n] show ?case
  proof (elim disjE exE conjE)
    fix e assume "write_cell h1 b1 r c n = Inl e" "write_cell h2 b2 r c n = Inl e"
    then show ?thesis using Cons.prems by (simp add: f)
  next
    fix h1' h2' assume w: "write_cell h1 b1 r c n = Inr h1'" "write_cell h2 b2 r c n = Inr h2'"
      and s: "similar h1' b1 h2' b2"
    from Cons.IH [OF s] w show ?thesis by (simp add: f)
  qed
qed

lemma assigned_similar:
  assumes "fst r1 = fst r2" "similar (snd r1) b1 (snd r2) b2"
  shows "fst (assigned tag r1) = fst (assigned tag r2) \<and>
         similar (snd (assigned tag r1)) b1 (snd (assigned tag r2)) b2"
proof -
  obtain e1 h1 e2 h2 where r: "r1 = (e1, h1)" "r2 = (e2, h2)" by (cases r1; cases r2) auto
  show ?thesis using assms unfolding r by (cases e1; cases e2) (simp_all add: assigned_def)
qed

lemma iteration_body_similar:
  assumes s: "similar h1 b1 h2 b2"
  shows "fst (iteration_body set_order h1 b1) = fst (iteration_body set_order h2 b2) \<and>
         similar (snd (iteration_body set_order h1 b1)) b1 (snd (iteration_body set_order h2 b2)) b2"
proof -
  let ?g = "read_grid h2 b2"
  from s have g: "read_grid h1 b1 = ?g" by (simp add: similar_def)
  have a: "fst (assigned tag (assign_all h1 b1 fs)) = fst (assigned tag (assign_all h2 b2 fs)) \<and>
      similar (snd (assigned tag (assign_all h1 b1 fs))) b1
        (snd (assigned tag (assign_all h2 b2 fs))) b2" for fs tag
    using assign_all_similar [OF s, of fs] by (intro assigned_similar) simp_all
  show ?thesis
  proof (cases "init_candidates ?g")
    case (Inl e)
    then show ?thesis using s by (simp add: iteration_body_def g)
  next
    case (Inr cands)
    show ?thesis
    proof (cases "find_naked_singles cands \<noteq> []")
      case True
      then show ?thesis using Inr a [of "''naked_single''" "find_naked_singles cands"]
        by (simp add: iteration_body_def g)
    next
      case ns: False
      show ?thesis
      proof (cases "find_hidden_singles set_order ?g cands \<noteq> []")
        case True
        then show ?thesis
          using Inr ns a [of "''hidden_single''" "find_hidden_singles set_order ?g cands"]
          by (simp add: iteration_body_def g Let_def)
      next
        case False
        then show ?thesis using Inr ns s
          by (cases "eliminations cands") (simp_all add: iteration_body_def g Let_def)
      qed
    qed
  qed
qed

lemma loop_similar:
  "similar h1 b1 h2 b2 \<Longrightarrow>
     fst (loop set_order h1 b1 used m it) = fst (loop set_order h2 b2 used m it)"
proof (induction set_order h1 b1 used m it arbitrary: h2 rule: loop.induct)
  case (1 set_order h1 b1 used m it)
  from "1.prems" have g: "read_grid h1 b1 = read_grid h2 b2" by (simp add: similar_def)
  show ?case
  proof (cases "\<not> is_solved (read_grid h1 b1) \<and> it < max_iterations")
    case False
    then show ?thesis
      by (subst loop.simps, subst (2) loop.simps) (auto simp: g)
  next
    case True
    obtain st h1' where b1: "iteration_body set_order h1 b1 = (st, h1')"
      by (cases "iteration_body set_order h1 b1") auto
    obtain st2 h2' where b2: "iteration_body set_order h2 b2 = (st2, h2')"
      by (cases "iteration_body set_order h2 b2") auto
    from iteration_body_similar [OF "1.prems", of set_order] b1 b2
    have st: "st2 = st" and s': "similar h1' b1 h2' b2" by simp_all
    show ?thesis
    proof (cases st)
      case (Raised e)
      then show ?thesis using True b1 b2 st g
        by (subst loop.simps, subst (2) loop.simps) simp
    next
      case (Applied tag)
      from "1.IH" [OF True b1 [symmetric] Applied s'] show ?thesis
        using True b1 b2 st g Applied
        by (subst loop.simps, subst (2) loop.simps) simp
    next
      case NotApplied
      then show ?thesis using True b1 b2 st g
        by (subst loop.simps, subst (2) loop.simps) simp
    qed
  qed
qed

lemma valid_rows_valid: "valid_board h b \<Longrightarrow> rows_valid h b"
  by (simp add: valid_board_def rows_valid_def list_all_iff)

lemma deepcopy_similar:
  assumes v: "valid_board h b" and dc: "deepcopy h b = (b', h')"
  shows "similar h b h' b'"
  unfolding similar_def
  using deepcopy_props(6,7,8) [OF v dc] valid_rows_valid [OF v] valid_rows_valid [of h' b']
  by simp

lemma rate_puzzle_fst:
  "fst (rate_puzzle set_order h b) =
     (case fst (loop set_order (snd (deepcopy h b)) (fst (deepcopy h b)) [] 0 0) of
        Inl e \<Rightarrow> Inl e
      | Inr (techniques_used, max_score, iteration, ex) \<Rightarrow>
          Inr (classify max_score, max_score, techniques_used))"
  by (simp add: rate_puzzle_def solve_loop_def split: prod.splits sum.splits)

lemma rate_puzzle_similar:
  assumes v1: "valid_board h1 b1" and v2: "valid_board h2 b2" and s: "similar h1 b1 h2 b2"
  shows "fst (rate_puzzle set_order h1 b1) = fst (rate_puzzle set_order h2 b2)"
proof -
  have s1: "similar h1 b1 (snd (deepcopy h1 b1)) (fst (deepcopy h1 b1))"
    by (rule deepcopy_similar [OF v1]) simp
  have s2: "similar h2 b2 (snd (deepcopy h2 b2)) (fst (deepcopy h2 b2))"
    by (rule deepcopy_similar [OF v2]) simp
  have "similar (snd (deepcopy h1 b1)) (fst (deepcopy h1 b1))
          (snd (deepcopy h2 b2)) (fst (deepcopy h2 b2))"
    by (rule similar_trans [OF similar_sym [OF s1] similar_trans [OF s s2]])
  from loop_similar [OF this] show ?thesis unfolding rate_puzzle_fst by simp
qed

text \<open>
  Claim C9. Two calls of \<^verbatim>\<open>rate_puzzle\<close>, one after the other, each on a fresh deep copy
  of the same board, give the same outcome: the same tuple (label, \<^verbatim>\<open>max_score\<close>,
  \<^verbatim>\<open>techniques_used\<close> in the same order), or the same exception. The second copy is made
  in the store as the first call has left it; the order in which \<^verbatim>\<open>list(set(results))\<close>
  lists the hidden singles is any function of the list of results, the same in both
  calls.
\<close>

theorem rate_puzzle_deterministic:
  assumes v: "valid_board h board"
    and dc1: "deepcopy h board = (copy1, h1)"
    and r1: "rate_puzzle set_order h1 copy1 = (result1, h2)"
    and dc2: "deepcopy h2 board = (copy2, h3)"
    and r2: "rate_puzzle set_order h3 copy2 = (result2, h4)"
  shows "result1 = result2"
proof -
  note p1 = deepcopy_props [OF v dc1]
  note k1 = old_board_kept [OF v p1(2) p1(3) p1(4)]
  from rate_puzzle_extends_store [OF p1(6) r1]
  have bs: "take (length (boards h1)) (boards h2) = boards h1"
    and os: "take (length (outer_lists h1)) (outer_lists h2) = outer_lists h1"
    and rs: "take (length (row_lists h1)) (row_lists h2) = row_lists h1"
    by simp_all
  note k2 = old_board_kept [OF k1(3) bs os rs]
  note p2 = deepcopy_props [OF k2(3) dc2]
  have "similar h board h1 copy1" by (rule deepcopy_similar [OF v dc1])
  moreover have "similar h board h2 board"
    unfolding similar_def using k1 k2 v
    by (simp add: same_aliasing_refl valid_rows_valid)
  moreover have "similar h2 board h3 copy2" by (rule deepcopy_similar [OF k2(3) dc2])
  ultimately have "similar h1 copy1 h3 copy2"
    using similar_sym similar_trans by blast
  from rate_puzzle_similar [OF p1(6) p2(6) this, of set_order] r1 r2
  show ?thesis by simp
qed

theorem rate_puzzle_deterministic_witness:
  "valid_board (store_of easy_puzzle) 0 \<and>
   fst (rate_puzzle remdups (snd (deepcopy (store_of easy_puzzle) 0))
          (fst (deepcopy (store_of easy_puzzle) 0))) =
   fst (rate_puzzle remdups
          (snd (deepcopy (snd (rate_puzzle remdups (snd (deepcopy (store_of easy_puzzle) 0))
                                 (fst (deepcopy (store_of easy_puzzle) 0)))) 0))
          (fst (deepcopy (snd (rate_puzzle remdups (snd (deepcopy (store_of easy_puzzle) 0))
                                 (fst (deepcopy (store_of easy_puzzle) 0)))) 0)))"
  using rate_puzzle_deterministic [where h = "store_of easy_puzzle" and board = 0
      and set_order = remdups
      and ?copy1.0 = "fst (deepcopy (store_of easy_puzzle) 0)"
      and ?h1.0 = "snd (deepcopy (store_of easy_puzzle) 0)"
      and ?result1.0 = "fst (rate_puzzle remdups (snd (deepcopy (store_of easy_puzzle) 0))
              (fst (deepcopy (store_of easy_puzzle) 0)))"
      and ?h2.0 = "snd (rate_puzzle remdups (snd (deepcopy (store_of easy_puzzle) 0))
              (fst (deepcopy (store_of easy_puzzle) 0)))"
      and ?copy2.0 = "fst (deepcopy (snd (rate_puzzle remdups
              (snd (deepcopy (store_of easy_puzzle) 0))
              (fst (deepcopy (store_of easy_puzzle) 0)))) 0)"
      and ?h3.0 = "snd (deepcopy (snd (rate_puzzle remdups
              (snd (deepcopy (store_of easy_puzzle) 0))
              (fst (deepcopy (store_of easy_puzzle) 0)))) 0)"
      and ?result2.0 = "fst (rate_puzzle remdups
          (snd (deepcopy (snd (rate_puzzle remdups (snd (deepcopy (store_of easy_puzzle) 0))
                                 (fst (deepcopy (store_of easy_puzzle) 0)))) 0))
          (fst (deepcopy (snd (rate_puzzle remdups (snd (deepcopy (store_of easy_puzzle) 0))
                                 (fst (deepcopy (store_of easy_puzzle) 0)))) 0)))"
      and ?h4.0 = "snd (rate_puzzle remdups
          (snd (deepcopy (snd (rate_puzzle remdups (snd (deepcopy (store_of easy_puzzle) 0))
                                 (fst (deepcopy (store_of easy_puzzle) 0)))) 0))
          (fst (deepcopy (snd (rate_puzzle remdups (snd (deepcopy (store_of easy_puzzle) 0))
                                 (fst (deepcopy (store_of easy_puzzle) 0)))) 0)))"]
  by (simp add: valid_store_of)

section \<open>X-Wing on all that is found\<close>

lemma apply_x_wing_all:
  "map_of (fst (apply_x_wing cands ws)) k =
     map_option (\<lambda>s. s - {d. \<exists>w\<in>set ws. (k, d) \<in> set (x_wing_targets w)}) (map_of cands k)"
proof -
  have "{d. (k, d) \<in> set (concat (map x_wing_targets ws))} =
      {d. \<exists>w\<in>set ws. (k, d) \<in> set (x_wing_targets w)}"
    by auto
  then show ?thesis
    by (simp add: apply_x_wing_def fold_fold_eliminate map_of_fold_eliminate)
qed

lemma x_wing_targets_iff:
  "(\<exists>w\<in>set ws. ((r, c), d) \<in> set (x_wing_targets w)) \<longleftrightarrow>
     (\<exists>a b p q. (Rows, (a, b), (p, q), d) \<in> set ws \<and>
        r < 9 \<and> r \<noteq> a \<and> r \<noteq> b \<and> (c = p \<or> c = q)) \<or>
     (\<exists>a b p q. (Cols, (a, b), (p, q), d) \<in> set ws \<and>
        c < 9 \<and> c \<noteq> a \<and> c \<noteq> b \<and> (r = p \<or> r = q))"
  (is "?L \<longleftrightarrow> ?R1 \<or> ?R2")
proof
  assume ?L
  then obtain w where w: "w \<in> set ws" "((r, c), d) \<in> set (x_wing_targets w)" by blast
  obtain pt a b p q n where e: "w = (pt, (a, b), (p, q), n)" by (cases w) auto
  show "?R1 \<or> ?R2"
  proof (cases pt)
    case Rows
    have "((r, c), d) \<in> set (x_wing_targets (Rows, (a, b), (p, q), n))" "(Rows, (a, b), (p, q), n) \<in> set ws"
      using w unfolding e Rows by simp_all
    then have "?R1" unfolding x_wing_targets_rows by blast
    then show ?thesis ..
  next
    case Cols
    have "((r, c), d) \<in> set (x_wing_targets (Cols, (a, b), (p, q), n))" "(Cols, (a, b), (p, q), n) \<in> set ws"
      using w unfolding e Cols by simp_all
    then have "?R2" unfolding x_wing_targets_cols by blast
    then show ?thesis ..
  qed
next
  assume "?R1 \<or> ?R2"
  then show ?L
  proof
    assume ?R1
    then obtain a b p q where "(Rows, (a, b), (p, q), d) \<in> set ws"
      "((r, c), d) \<in> set (x_wing_targets (Rows, (a, b), (p, q), d))"
      unfolding x_wing_targets_rows by blast
    then show ?L by blast
  next
    assume ?R2
    then obtain a b p q where "(Cols, (a, b), (p, q), d) \<in> set ws"
      "((r, c), d) \<in> set (x_wing_targets (Cols, (a, b), (p, q), d))"
      unfolding x_wing_targets_cols by blast
    then show ?L by blast
  qed
qed

lemma apply_x_wing_removes:
  assumes "w \<in> set ws" "(k, d) \<in> set (x_wing_targets w)"
  shows "\<not> is_candidate (fst (apply_x_wing cands ws)) k d"
  unfolding is_candidate_def apply_x_wing_all using assms
  by (cases "map_of cands k") auto

lemma x_wing_grid_init: "init_candidates x_wing_grid = Inr x_wing_grid_candidates"
  by code_simp

lemma x_wing_grid_found:
  "find_x_wing x_wing_grid_candidates = [(Rows, (1, 7), (0, 2), 2), (Cols, (4, 7), (3, 5), 2)]"
  by code_simp

lemma x_wing_grid_rows:
  "filter (\<lambda>r. length (filter (\<lambda>c. is_candidate x_wing_grid_candidates (r, c) 2) [0..<9]) = 2)
     [0..<9] = [1, 7]"
  "filter (\<lambda>c. is_candidate x_wing_grid_candidates (1, c) 2) [0..<9] = [0, 2]"
  "filter (\<lambda>c. is_candidate x_wing_grid_candidates (7, c) 2) [0..<9] = [0, 2]"
  by code_simp+

lemma x_wing_grid_applied:
  "fst (apply_x_wing x_wing_grid_candidates (find_x_wing x_wing_grid_candidates)) =
     [((1, 0), {2, 6}), ((1, 2), {2}), ((3, 1), {5}), ((3, 4), {2, 6}), ((3, 7), {2, 5}),
      ((4, 1), {2}), ((5, 0), {7}), ((5, 4), {2}), ((5, 7), {2, 5}), ((7, 0), {2, 7}),
      ((7, 2), {2, 7})]"
  by code_simp

text \<open>
  Claim C5, as the specification has it, fails for the call the engine makes, which
  gives \<^verbatim>\<open>apply_x_wing\<close> all that \<^verbatim>\<open>find_x_wing\<close> has found. In \<open>x_wing_grid\<close>, which obeys
  the input contract, the rows 1 and 7 are the only rows that hold the digit 2 in
  exactly two columns, and both in the columns 0 and 2. \<^verbatim>\<open>find_x_wing\<close> reports that
  pattern and the pattern of the columns 4 and 7 with the rows 3 and 5, and
  \<^verbatim>\<open>apply_x_wing\<close> removes the 2 from the cell \<open>(5, 0)\<close>, as claimed, and from the cell
  \<open>(3, 1)\<close>, which lies in neither of the columns 0 and 2.
\<close>

theorem apply_x_wing_beyond_pattern:
  "spec_valid_grid x_wing_grid \<and>
   init_candidates x_wing_grid = Inr x_wing_grid_candidates \<and>
   filter (\<lambda>r. length (filter (\<lambda>c. is_candidate x_wing_grid_candidates (r, c) 2) [0..<9]) = 2)
     [0..<9] = [1, 7] \<and>
   filter (\<lambda>c. is_candidate x_wing_grid_candidates (1, c) 2) [0..<9] = [0, 2] \<and>
   filter (\<lambda>c. is_candidate x_wing_grid_candidates (7, c) 2) [0..<9] = [0, 2] \<and>
   find_x_wing x_wing_grid_candidates = [(Rows, (1, 7), (0, 2), 2), (Cols, (4, 7), (3, 5), 2)] \<and>
   map_of x_wing_grid_candidates (3, 1) = Some {2, 5} \<and>
   map_of (fst (apply_x_wing x_wing_grid_candidates (find_x_wing x_wing_grid_candidates)))
     (3, 1) = Some {5}"
proof -
  have v: "spec_valid_grid x_wing_grid" by code_simp
  have m: "map_of x_wing_grid_candidates (3, 1) = Some {2, 5}"
    by (simp add: x_wing_grid_candidates_def)
  have a: "map_of (fst (apply_x_wing x_wing_grid_candidates (find_x_wing x_wing_grid_candidates)))
     (3, 1) = Some {5}"
    unfolding x_wing_grid_applied by simp
  show ?thesis
    by (intro conjI) (rule v x_wing_grid_init x_wing_grid_rows x_wing_grid_found m a)+
qed

text \<open>
  Claim C5, amended. When two rows hold a digit D (1 to 9) as a candidate in exactly the
  same two columns, \<^verbatim>\<open>find_x_wing\<close> reports the pattern of these rows and columns, and
  \<^verbatim>\<open>apply_x_wing\<close>, given all that \<^verbatim>\<open>find_x_wing\<close> has found, removes D from the two columns
  in every row but the two of the pattern. The same holds with rows and columns
  exchanged. It does not stop there: a digit is removed from a cell exactly when some
  reported pattern of that digit, by rows or by columns, has the cell on one of its two
  crossing lines and outside its two lines; every other candidate stays.
\<close>

theorem x_wing_applied:
  assumes "1 \<le> D" "D \<le> 9" "l1 < l2" "l2 < 9" "x1 < x2"
  shows "({c. c < 9 \<and> is_candidate cands (l1, c) D} = {x1, x2} \<and>
          {c. c < 9 \<and> is_candidate cands (l2, c) D} = {x1, x2} \<longrightarrow>
            (Rows, (l1, l2), (x1, x2), D) \<in> set (find_x_wing cands) \<and>
            (\<forall>r c. r < 9 \<and> r \<noteq> l1 \<and> r \<noteq> l2 \<and> (c = x1 \<or> c = x2) \<longrightarrow>
               \<not> is_candidate (fst (apply_x_wing cands (find_x_wing cands))) (r, c) D)) \<and>
         ({r. r < 9 \<and> is_candidate cands (r, l1) D} = {x1, x2} \<and>
          {r. r < 9 \<and> is_candidate cands (r, l2) D} = {x1, x2} \<longrightarrow>
            (Cols, (l1, l2), (x1, x2), D) \<in> set (find_x_wing cands) \<and>
            (\<forall>r c. c < 9 \<and> c \<noteq> l1 \<and> c \<noteq> l2 \<and> (r = x1 \<or> r = x2) \<longrightarrow>
               \<not> is_candidate (fst (apply_x_wing cands (find_x_wing cands))) (r, c) D)) \<and>
         (\<forall>r c. map_of (fst (apply_x_wing cands (find_x_wing cands))) (r, c) =
            map_option (\<lambda>s. s -
               {d. (\<exists>a b p q. (Rows, (a, b), (p, q), d) \<in> set (find_x_wing cands) \<and>
                      r < 9 \<and> r \<noteq> a \<and> r \<noteq> b \<and> (c = p \<or> c = q)) \<or>
                   (\<exists>a b p q. (Cols, (a, b), (p, q), d) \<in> set (find_x_wing cands) \<and>
                      c < 9 \<and> c \<noteq> a \<and> c \<noteq> b \<and> (r = p \<or> r = q))})
              (map_of cands (r, c)))"
proof -
  have rows: "(Rows, (l1, l2), (x1, x2), D) \<in> set (find_x_wing cands)"
    if h: "{c. c < 9 \<and> is_candidate cands (l1, c) D} = {x1, x2} \<and>
          {c. c < 9 \<and> is_candidate cands (l2, c) D} = {x1, x2}"
  proof -
    have "(Rows, (l1, l2), (x1, x2), D) \<in> set (find_x_wing_in_rows cands D)"
      unfolding find_x_wing_in_rows_def
      using h assms(5) by (intro x_wing_found [OF assms(3,4)] two_places) simp_all
    then show ?thesis
      unfolding find_x_wing_def using digit_upto [OF assms(1,2)] by auto
  qed
  have cols: "(Cols, (l1, l2), (x1, x2), D) \<in> set (find_x_wing cands)"
    if h: "{r. r < 9 \<and> is_candidate cands (r, l1) D} = {x1, x2} \<and>
          {r. r < 9 \<and> is_candidate cands (r, l2) D} = {x1, x2}"
  proof -
    have "(Cols, (l1, l2), (x1, x2), D) \<in> set (find_x_wing_in_cols cands D)"
      unfolding find_x_wing_in_cols_def
      using h assms(5) by (intro x_wing_found [OF assms(3,4)] two_places) simp_all
    then show ?thesis
      unfolding find_x_wing_def using digit_upto [OF assms(1,2)] by auto
  qed
  have rows_gone: "\<not> is_candidate (fst (apply_x_wing cands (find_x_wing cands))) (r, c) D"
    if "(Rows, (l1, l2), (x1, x2), D) \<in> set (find_x_wing cands)"
      and "r < 9 \<and> r \<noteq> l1 \<and> r \<noteq> l2 \<and> (c = x1 \<or> c = x2)" for r c
    using that(2) by (intro apply_x_wing_removes [OF that(1)]) (simp add: x_wing_targets_rows)
  have cols_gone: "\<not> is_candidate (fst (apply_x_wing cands (find_x_wing cands))) (r, c) D"
    if "(Cols, (l1, l2), (x1, x2), D) \<in> set (find_x_wing cands)"
      and "c < 9 \<and> c \<noteq> l1 \<and> c \<noteq> l2 \<and> (r = x1 \<or> r = x2)" for r c
    using that(2) by (intro apply_x_wing_removes [OF that(1)]) (simp add: x_wing_targets_cols)
  have all: "map_of (fst (apply_x_wing cands (find_x_wing cands))) (r, c) =
            map_option (\<lambda>s. s -
               {d. (\<exists>a b p q. (Rows, (a, b), (p, q), d) \<in> set (find_x_wing cands) \<and>
                      r < 9 \<and> r \<noteq> a \<and> r \<noteq> b \<and> (c = p \<or> c = q)) \<or>
                   (\<exists>a b p q. (Cols, (a, b), (p, q), d) \<in> set (find_x_wing cands) \<and>
                      c < 9 \<and> c \<noteq> a \<and> c \<noteq> b \<and> (r = p \<or> r = q))})
              (map_of cands (r, c))" for r c
    unfolding apply_x_wing_all x_wing_targets_iff ..
  show ?thesis
    using rows cols rows_gone cols_gone all by blast
qed

lemma x_wing_grid_sets:
  "{c. c < 9 \<and> is_candidate x_wing_grid_candidates (1, c) 2} = {0, 2}"
  "{c. c < 9 \<and> is_candidate x_wing_grid_candidates (7, c) 2} = {0, 2}"
  unfolding less_9_filter x_wing_grid_rows by simp_all

theorem x_wing_applied_witness:
  "{c. c < 9 \<and> is_candidate x_wing_grid_candidates (1, c) 2} = {0, 2} \<and>
   {c. c < 9 \<and> is_candidate x_wing_grid_candidates (7, c) 2} = {0, 2} \<and>
   (Rows, (1, 7), (0, 2), 2) \<in> set (find_x_wing x_wing_grid_candidates) \<and>
   is_candidate x_wing_grid_candidates (5, 0) 2 \<and>
   \<not> is_candidate (fst (apply_x_wing x_wing_grid_candidates (find_x_wing x_wing_grid_candidates)))
       (5, 0) 2"
proof -
  have c: "is_candidate x_wing_grid_candidates (5, 0) 2"
    by (simp add: is_candidate_def x_wing_grid_candidates_def)
  show ?thesis
    using x_wing_applied [of 2 1 7 0 2 x_wing_grid_candidates] x_wing_grid_sets c by simp
qed

section \<open>The iteration cap\<close>

lemma cycling_puzzle_step:
  "fst (iteration_body remdups (store_of cycling_puzzle) 0) = Applied ''pointing_pair''"
  by code_simp

lemma cycling_puzzle_unsolved: "\<not> is_solved cycling_puzzle"
  by (simp add: is_solved_def cycling_puzzle_def)

lemma cycling_puzzle_valid: "spec_valid_grid cycling_puzzle"
  by code_simp

lemma iteration_body_tag:
  assumes "iteration_body set_order h wb = (Applied tag, h')"
  shows "tag \<in> {''naked_single'', ''hidden_single'', ''naked_pair'', ''pointing_pair'',
                ''x_wing'', ''swordfish'', ''xy_wing''}"
proof -
  have a: "assigned t r = (Applied tag, h') \<Longrightarrow> tag = t" for t r
    by (cases r) (auto simp: assigned_def split: option.splits)
  show ?thesis
  proof (cases "init_candidates (read_grid h wb)")
    case (Inl e)
    then show ?thesis using assms by (simp add: iteration_body_def)
  next
    case (Inr cands)
    show ?thesis
    proof (cases "find_naked_singles cands \<noteq> []")
      case True
      then have "tag = ''naked_single''"
        using assms Inr by (intro a) (simp add: iteration_body_def)
      then show ?thesis by simp
    next
      case ns: False
      show ?thesis
      proof (cases "find_hidden_singles set_order (read_grid h wb) cands \<noteq> []")
        case True
        then have "tag = ''hidden_single''"
          using assms Inr ns by (intro a) (simp add: iteration_body_def Let_def)
        then show ?thesis by simp
      next
        case False
        then have "eliminations cands = Some tag"
          using assms Inr ns
          by (cases "eliminations cands") (simp_all add: iteration_body_def Let_def)
        from eliminations_tag [OF this] show ?thesis by auto
      qed
    qed
  qed
qed

lemma iteration_body_eliminates:
  assumes "fst (iteration_body set_order h wb) = Applied tag"
    and "tag \<noteq> ''naked_single''" and "tag \<noteq> ''hidden_single''"
  shows "iteration_body set_order h wb = (Applied tag, h)"
proof -
  have a: "fst (assigned t r) = Applied tag \<Longrightarrow> tag = t" for t r
    by (cases r) (auto simp: assigned_def split: option.splits)
  show ?thesis
  proof (cases "init_candidates (read_grid h wb)")
    case (Inl e)
    then show ?thesis using assms by (simp add: iteration_body_def)
  next
    case (Inr cands)
    show ?thesis
    proof (cases "find_naked_singles cands \<noteq> []")
      case True
      then have "tag = ''naked_single''"
        using assms(1) Inr by (intro a) (simp add: iteration_body_def)
      then show ?thesis using assms by simp
    next
      case ns: False
      show ?thesis
      proof (cases "find_hidden_singles set_order (read_grid h wb) cands \<noteq> []")
        case True
        then have "tag = ''hidden_single''"
          using assms(1) Inr ns by (intro a) (simp add: iteration_body_def Let_def)
        then show ?thesis using assms by simp
      next
        case False
        then show ?thesis
          using assms(1) Inr ns
          by (cases "eliminations cands") (simp_all add: iteration_body_def Let_def)
      qed
    qed
  qed
qed

text \<open>
  An iteration that applies a technique and leaves the grid as it was is repeated as it
  is up to the cap: the candidates are built from the same grid again.
\<close>

lemma loop_cycles:
  assumes b: "iteration_body set_order h wb = (Applied tag, h)"
    and u: "\<not> is_solved (read_grid h wb)"
  shows "it \<le> max_iterations \<Longrightarrow>
     loop set_order h wb used m it =
       (Inr (used @ replicate (max_iterations - it) tag,
             if it < max_iterations then max m (technique_score tag) else m,
             max_iterations, IterationCapped), h)"
proof (induction "max_iterations - it" arbitrary: it used m)
  case 0
  then have "it = max_iterations" by simp
  then show ?case using u by (subst loop.simps) simp
next
  case (Suc n)
  then have lt: "it < max_iterations" and n: "n = max_iterations - (it + 1)"
    and le: "it + 1 \<le> max_iterations" by simp_all
  have r: "used @ tag # replicate n tag = used @ replicate (Suc n) tag" by simp
  have "loop set_order h wb used m it =
      loop set_order h wb (used @ [tag]) (max m (technique_score tag)) (it + 1)"
    using lt u b by (subst loop.simps) simp
  also have "\<dots> = (Inr ((used @ [tag]) @ replicate (max_iterations - (it + 1)) tag,
             if it + 1 < max_iterations
             then max (max m (technique_score tag)) (technique_score tag)
             else max m (technique_score tag),
             max_iterations, IterationCapped), h)"
    by (rule Suc.hyps(1) [OF n le])
  also have "\<dots> = (Inr (used @ replicate (max_iterations - it) tag,
             max m (technique_score tag), max_iterations, IterationCapped), h)"
    unfolding Suc.hyps(2) [symmetric] n [symmetric] by simp
  finally show ?case using lt by simp
qed

lemma fold_max_Max:
  "fold (\<lambda>t m. max m (f t)) ts (m :: int) = Max (insert m (f ` set ts))"
proof (induction ts arbitrary: m)
  case Nil
  then show ?case by simp
next
  case (Cons t ts)
  have "Max (insert (max m (f t)) (f ` set ts)) = Max (insert m (insert (f t) (f ` set ts)))"
    by (cases "f ` set ts = {}") (simp_all add: max.assoc)
  then show ?case by (simp add: Cons.IH)
qed

text \<open>
  What an exit by the cap tells: every iteration from \<open>it\<close> to the cap has applied one of
  the seven techniques, and \<^verbatim>\<open>max_score\<close> has taken the maximum with their weights.
\<close>

lemma loop_capped:
  "loop set_order h wb used m it = (Inr (used', m', it', IterationCapped), h') \<Longrightarrow>
   it \<le> max_iterations \<Longrightarrow>
     it' = max_iterations \<and> \<not> is_solved (read_grid h' wb) \<and>
     (\<exists>tags. used' = used @ tags \<and> length tags = max_iterations - it \<and>
        set tags \<subseteq> {''naked_single'', ''hidden_single'', ''naked_pair'', ''pointing_pair'',
                     ''x_wing'', ''swordfish'', ''xy_wing''} \<and>
        m' = fold (\<lambda>t m. max m (technique_score t)) tags m)"
proof (induction set_order h wb used m it rule: loop.induct)
  case (1 set_order h wb used m it)
  show ?case
  proof (cases "\<not> is_solved (read_grid h wb) \<and> it < max_iterations")
    case False
    have "loop set_order h wb used m it =
        (Inr (used, m, it, if is_solved (read_grid h wb) then Solved else IterationCapped), h)"
      using False by (subst loop.simps) auto
    with "1.prems" False show ?thesis by (auto split: if_splits)
  next
    case True
    obtain st h1 where b: "iteration_body set_order h wb = (st, h1)"
      by (cases "iteration_body set_order h wb") auto
    show ?thesis
    proof (cases st)
      case (Raised e)
      have "loop set_order h wb used m it = (Inl e, h1)"
        using True b Raised by (subst loop.simps) simp
      with "1.prems" show ?thesis by simp
    next
      case NotApplied
      have "loop set_order h wb used m it =
          (Inr (used @ [''requires_expert_technique''], max m 200, it + 1, Stuck), h1)"
        using True b NotApplied by (subst loop.simps) simp
      with "1.prems" show ?thesis by simp
    next
      case (Applied tag)
      have l: "loop set_order h wb used m it =
          loop set_order h1 wb (used @ [tag]) (max m (technique_score tag)) (it + 1)"
        using True b Applied by (subst loop.simps) simp
      have le: "it + 1 \<le> max_iterations" using True by simp
      from "1.IH" [OF True b [symmetric] Applied "1.prems"(1) [unfolded l] le]
      obtain tags where i: "it' = max_iterations" "\<not> is_solved (read_grid h' wb)"
        and t: "used' = (used @ [tag]) @ tags" "length tags = max_iterations - (it + 1)"
          "set tags \<subseteq> {''naked_single'', ''hidden_single'', ''naked_pair'', ''pointing_pair'',
                     ''x_wing'', ''swordfish'', ''xy_wing''}"
          "m' = fold (\<lambda>t m. max m (technique_score t)) tags (max m (technique_score tag))"
        by blast
      have tg: "tag \<in> {''naked_single'', ''hidden_single'', ''naked_pair'', ''pointing_pair'',
                     ''x_wing'', ''swordfish'', ''xy_wing''}"
        by (rule iteration_body_tag [OF b [unfolded Applied]])
      have "used' = used @ (tag # tags)" using t(1) by simp
      moreover have "length (tag # tags) = max_iterations - it" using t(2) le by simp
      moreover have "set (tag # tags) \<subseteq> {''naked_single'', ''hidden_single'', ''naked_pair'',
          ''pointing_pair'', ''x_wing'', ''swordfish'', ''xy_wing''}"
        using t(3) tg by simp
      moreover have "m' = fold (\<lambda>t m. max m (technique_score t)) (tag # tags) m"
        using t(4) by simp
      ultimately show ?thesis using i by blast
    qed
  qed
qed

lemma technique_score_bounds:
  "tag \<in> {''naked_single'', ''hidden_single'', ''naked_pair'', ''pointing_pair'', ''x_wing'',
           ''swordfish'', ''xy_wing''} \<Longrightarrow> 15 \<le> technique_score tag \<and> technique_score tag \<le> 180"
  by (auto simp: technique_score_def TECHNIQUE_SCORES_def)

lemma cycling_puzzle_capped:
  "solve_loop remdups (store_of cycling_puzzle) 0 =
     (Inr (replicate max_iterations ''pointing_pair'', 80, max_iterations, IterationCapped),
      snd (deepcopy (store_of cycling_puzzle) 0))"
proof -
  let ?h = "store_of cycling_puzzle"
  obtain wb h1 where dc: "deepcopy ?h 0 = (wb, h1)" by (cases "deepcopy ?h 0") auto
  have s: "similar ?h 0 h1 wb" by (rule deepcopy_similar [OF valid_store_of dc])
  have g: "read_grid h1 wb = cycling_puzzle"
    using deepcopy_props(7) [OF valid_store_of dc] by (simp add: read_grid_store_of)
  have "fst (iteration_body remdups h1 wb) = Applied ''pointing_pair''"
    using iteration_body_similar [OF s, of remdups] cycling_puzzle_step by simp
  then have b: "iteration_body remdups h1 wb = (Applied ''pointing_pair'', h1)"
    by (rule iteration_body_eliminates) simp_all
  have u: "\<not> is_solved (read_grid h1 wb)" unfolding g by (rule cycling_puzzle_unsolved)
  have m: "(0 :: nat) < max_iterations" by (simp add: max_iterations_def)
  have sc: "technique_score ''pointing_pair'' = 80"
    by (simp add: technique_score_def TECHNIQUE_SCORES_def)
  from loop_cycles [OF b u, of 0 "[]" 0] show ?thesis
    by (simp add: solve_loop_def dc m sc)
qed

text \<open>
  Claim C1, as the specification has it, fails on \<open>cycling_puzzle\<close>, which obeys the input
  contract. No single exists and no naked pair eliminates anything; the pointing pair of
  the digit 5 in box 0 eliminates the 5 of the cell \<open>(6, 0)\<close>, the grid stays as it is,
  and the next iteration finds the same pointing pair in the candidates it builds anew.
  After 1000 iterations the condition of the while loop fails with the grid unsolved,
  \<^verbatim>\<open>max_score\<close> is 80 and the label is Medium. No hidden single is found, so the order of
  \<^verbatim>\<open>list(set(results))\<close> plays no part.
\<close>

theorem rate_puzzle_capped_medium:
  "spec_valid_grid cycling_puzzle \<and> max_iterations = 1000 \<and>
   read_grid (store_of cycling_puzzle) 0 = cycling_puzzle \<and>
   fst (solve_loop remdups (store_of cycling_puzzle) 0) =
     Inr (replicate max_iterations ''pointing_pair'', 80, max_iterations, IterationCapped) \<and>
   fst (rate_puzzle remdups (store_of cycling_puzzle) 0) =
     Inr (''Medium'', 80, replicate max_iterations ''pointing_pair'')"
  using cycling_puzzle_valid cycling_puzzle_capped
  by (simp add: rate_puzzle_def classify_def read_grid_store_of)
    (simp add: max_iterations_def)

text \<open>
  Claim C1, amended. The source does nothing when the cap ends the loop: the statements
  after the loop classify \<^verbatim>\<open>max_score\<close> as it stands. When the loop is left by the cap,
  1000 iterations have each applied one of the seven techniques, \<^verbatim>\<open>techniques_used\<close>
  holds their 1000 tags (never \<^verbatim>\<open>requires_expert_technique\<close>), \<^verbatim>\<open>max_score\<close> is the
  largest of their weights, which lies between 15 and 180 and so never reaches 200, the
  working copy is unsolved, and the label is the one the thresholds give to that score.
\<close>

theorem rate_puzzle_iteration_cap:
  assumes c: "solve_loop set_order h board =
      (Inr (techniques_used, max_score, iteration, IterationCapped), h')"
  shows "iteration = 1000 \<and> length techniques_used = 1000 \<and>
     set techniques_used \<subseteq> {''naked_single'', ''hidden_single'', ''naked_pair'',
       ''pointing_pair'', ''x_wing'', ''swordfish'', ''xy_wing''} \<and>
     max_score = Max (technique_score ` set techniques_used) \<and>
     15 \<le> max_score \<and> max_score \<le> 180 \<and>
     \<not> is_solved (read_grid h' (fst (deepcopy h board))) \<and>
     rate_puzzle set_order h board = (Inr (classify max_score, max_score, techniques_used), h')"
proof -
  obtain wb h1 where dc: "deepcopy h board = (wb, h1)" by (cases "deepcopy h board") auto
  have l: "loop set_order h1 wb [] 0 0 =
      (Inr (techniques_used, max_score, iteration, IterationCapped), h')"
    using c by (simp add: solve_loop_def dc)
  from loop_capped [OF l]
  have i: "iteration = max_iterations" and u: "\<not> is_solved (read_grid h' wb)"
    and n: "length techniques_used = max_iterations"
    and t: "set techniques_used \<subseteq> {''naked_single'', ''hidden_single'', ''naked_pair'',
       ''pointing_pair'', ''x_wing'', ''swordfish'', ''xy_wing''}"
    and m: "max_score = fold (\<lambda>t m. max m (technique_score t)) techniques_used 0"
    by auto
  let ?X = "technique_score ` set techniques_used"
  have ne: "?X \<noteq> {}" using n by (auto simp: max_iterations_def)
  have fin: "finite ?X" by simp
  have b: "\<And>x. x \<in> ?X \<Longrightarrow> 15 \<le> x \<and> x \<le> 180"
    using technique_score_bounds t by blast
  have mx: "Max ?X \<in> ?X" by (rule Max_in [OF fin ne])
  have "max_score = Max (insert 0 ?X)" unfolding m by (rule fold_max_Max)
  also have "\<dots> = max 0 (Max ?X)" using ne by simp
  also have "\<dots> = Max ?X" using b [OF mx] by simp
  finally have ms: "max_score = Max ?X" .
  have r: "rate_puzzle set_order h board =
      (Inr (classify max_score, max_score, techniques_used), h')"
    by (simp add: rate_puzzle_def c)
  show ?thesis
    using i n t ms b [OF mx] u r by (simp add: max_iterations_def dc)
qed

theorem rate_puzzle_iteration_cap_witness:
  "solve_loop remdups (store_of cycling_puzzle) 0 =
     (Inr (replicate max_iterations ''pointing_pair'', 80, max_iterations, IterationCapped),
      snd (deepcopy (store_of cycling_puzzle) 0)) \<and>
   max_iterations = 1000 \<and>
   (80 :: int) = Max (technique_score ` set (replicate max_iterations ''pointing_pair'')) \<and>
   fst (rate_puzzle remdups (store_of cycling_puzzle) 0) =
     Inr (''Medium'', 80, replicate max_iterations ''pointing_pair'')"
  using rate_puzzle_iteration_cap [OF cycling_puzzle_capped] cycling_puzzle_capped
  by (simp add: classify_def technique_score_def TECHNIQUE_SCORES_def)

end
